theory Spec2Isabelle
  imports Main "HOL-Library.AList"
begin

section \<open>Values of the document format\<close>

text \<open>
  The function \<open>graphDescend\<close> of \<open>graph-descend.js\<close> builds an aggregation expression.
  What is verified is the value of that expression on one input document, so the
  expression is embedded operator by operator: \<open>$let\<close> becomes \<open>let\<close>, \<open>$cond\<close>
  becomes \<open>if\<close>, \<open>$reduce\<close> becomes a fold, and each remaining operator is a function
  on document values. A document is an association list from field names to values, in
  field order. The value \<open>missing\<close> of the expression language is \<open>None\<close>.

  The accumulator of the \<open>$reduce\<close> and the elements of its worklist are objects that the
  expression builds itself, always with the same fields, so they are records here; the
  sub-documents and the emitted records are values of the document format. Numbers are
  integers. The arguments that name fields are literal names (one that begins with
  \<open>$\<close> would be read by the evaluator as a path, and is not covered), and the size
  limits of an evaluator are not modelled.
\<close>

datatype bson =
    BNull
  | BBool bool
  | BInt int
  | BStr string
  | BDoc "(string \<times> bson) list"
  | BArr "bson list"

datatype error = ObjectToArrayNeedsDocument

text \<open>An element of the worklist \<open>subLevelsToInspect\<close> (source line 57 and lines 152-158).\<close>

record node =
  n_depth :: int
  n_idx :: string
  subdoc :: bson

text \<open>The accumulator of the outer \<open>$reduce\<close> (source lines 52-58).\<close>

record accum =
  result :: "bson list"
  subLevelsToInspect :: "node list"

text \<open>The arguments of \<open>graphDescend\<close> (source line 39).\<close>

record params =
  connectToField :: string
  startWith :: "string option"
  maxElements :: int
  omitFields :: "string list"
  maxDepth :: int
  showSchema :: bool

section \<open>Operators of the expression language\<close>

definition mg_first :: "'a list \<Rightarrow> 'a option" where
  "mg_first xs = (case xs of [] \<Rightarrow> None | x # _ \<Rightarrow> Some x)"

text \<open>
  \<open>$getField\<close>: \<open>null\<close> on a missing or \<open>null\<close> input, missing on an input that is
  not a document or has no such field. (The expression applies it to such inputs only when
  the worklist is empty or its head is not a document, and then only asks whether the
  value is an array.)
\<close>

definition mg_getField :: "string \<Rightarrow> bson option \<Rightarrow> bson option" where
  "mg_getField field input =
     (case input of
        None \<Rightarrow> Some BNull
      | Some BNull \<Rightarrow> Some BNull
      | Some (BDoc kvs) \<Rightarrow> map_of kvs field
      | Some _ \<Rightarrow> None)"

definition mg_range :: "int \<Rightarrow> int \<Rightarrow> int list" where
  "mg_range a b = map (\<lambda>k. a + int k) [0..<nat (b - a)]"

definition mg_slice :: "'a list \<Rightarrow> int \<Rightarrow> int \<Rightarrow> 'a list" where
  "mg_slice xs pos n = take (nat n) (drop (nat pos) xs)"

definition mg_arrayElemAt :: "'a list \<Rightarrow> int \<Rightarrow> 'a option" where
  "mg_arrayElemAt xs i =
     (if 0 \<le> i \<and> i < int (length xs) then Some (xs ! nat i)
      else if i < 0 \<and> - int (length xs) \<le> i then Some (xs ! nat (int (length xs) + i))
      else None)"

primrec mg_reduce :: "('v \<Rightarrow> 'a \<Rightarrow> error + 'v) \<Rightarrow> 'a list \<Rightarrow> 'v \<Rightarrow> error + 'v" where
  "mg_reduce f [] v = Inr v"
| "mg_reduce f (x # xs) v = (case f v x of Inl e \<Rightarrow> Inl e | Inr v' \<Rightarrow> mg_reduce f xs v')"

text \<open>
  \<open>$objectToArray\<close> raises on a value that is neither a document nor \<open>null\<close>/missing;
  on \<open>null\<close> it is \<open>null\<close>, written \<open>None\<close> here, and \<open>$map\<close>, \<open>$filter\<close>,
  \<open>$concatArrays\<close> and \<open>$arrayToObject\<close> pass a \<open>null\<close> argument on.
\<close>

definition mg_objectToArray :: "bson option \<Rightarrow> error + (string \<times> bson) list option" where
  "mg_objectToArray input =
     (case input of
        None \<Rightarrow> Inr None
      | Some BNull \<Rightarrow> Inr None
      | Some (BDoc kvs) \<Rightarrow> Inr (Some kvs)
      | Some _ \<Rightarrow> Inl ObjectToArrayNeedsDocument)"

definition mg_map :: "('a \<Rightarrow> 'b) \<Rightarrow> 'a list option \<Rightarrow> 'b list option" where
  "mg_map f input = (case input of None \<Rightarrow> None | Some xs \<Rightarrow> Some (map f xs))"

definition mg_filter :: "('a \<Rightarrow> bool) \<Rightarrow> 'a list option \<Rightarrow> 'a list option" where
  "mg_filter c input = (case input of None \<Rightarrow> None | Some xs \<Rightarrow> Some (filter c xs))"

primrec mg_concatArrays :: "'a list option list \<Rightarrow> 'a list option" where
  "mg_concatArrays [] = Some []"
| "mg_concatArrays (a # as) =
     (case a of None \<Rightarrow> None
      | Some xs \<Rightarrow> (case mg_concatArrays as of None \<Rightarrow> None | Some ys \<Rightarrow> Some (xs @ ys)))"

text \<open>\<open>$arrayToObject\<close>: a repeated key keeps the value of its last occurrence.\<close>

definition mg_arrayToObject :: "(string \<times> bson) list option \<Rightarrow> bson" where
  "mg_arrayToObject input =
     (case input of
        None \<Rightarrow> BNull
      | Some kvs \<Rightarrow> BDoc (foldl (\<lambda>d kv. AList.update (fst kv) (snd kv) d) [] kvs))"

definition mg_type :: "bson \<Rightarrow> string" where
  "mg_type v =
     (case v of
        BNull \<Rightarrow> ''null''
      | BBool _ \<Rightarrow> ''bool''
      | BInt i \<Rightarrow> (if - (2 ^ 31) \<le> i \<and> i < 2 ^ 31 then ''int'' else ''long'')
      | BStr _ \<Rightarrow> ''string''
      | BDoc _ \<Rightarrow> ''object''
      | BArr _ \<Rightarrow> ''array'')"

definition digit_char :: "nat \<Rightarrow> char" where
  "digit_char d = char_of (of_char CHR ''0'' + d)"

fun digits :: "nat \<Rightarrow> string" where
  "digits n = (if n < 10 then [digit_char n] else digits (n div 10) @ [digit_char (n mod 10)])"

declare digits.simps [simp del]

definition mg_toString :: "int \<Rightarrow> string" where
  "mg_toString i = (if i < 0 then ''-'' @ digits (nat (- i)) else digits (nat i))"

section \<open>The expression built by graphDescend\<close>

text \<open>Source line 40: a falsy \<open>startWith\<close> (\<open>null\<close> or the empty string) is replaced.\<close>

definition startWithField :: "params \<Rightarrow> string" where
  "startWithField p =
     (case startWith p of
        None \<Rightarrow> connectToField p
      | Some s \<Rightarrow> (if s = [] then connectToField p else s))"

text \<open>Source line 46: the variable \<open>maxDepth\<close> of the outer \<open>$let\<close>.\<close>

definition maxDepthVar :: "params \<Rightarrow> int" where
  "maxDepthVar p = (if maxDepth p < 0 \<or> maxDepth p > 100 then 100 else maxDepth p)"

definition warning :: bson where
  "warning = BDoc [(''WARNING'', BStr ''The 'maxElements' parameter for graphDescend() was not set to a large enough value to fully descend a nested document'')]"

text \<open>Source line 66.\<close>

definition currChildFieldName :: "params \<Rightarrow> int \<Rightarrow> string" where
  "currChildFieldName p this = (if this \<le> 0 then startWithField p else connectToField p)"

text \<open>Source lines 86-95: the value of the \<open>schema\<close> pair.\<close>

definition schema_value :: "(string \<times> bson) list option \<Rightarrow> bson" where
  "schema_value kvs =
     (case mg_map (\<lambda>field. BDoc [(''fieldname'', BStr (fst field)), (''type'', BStr (mg_type (snd field)))]) kvs of
        None \<Rightarrow> BNull
      | Some s \<Rightarrow> BArr s)"

text \<open>Source lines 77-112: the record built for the head of the worklist.\<close>

definition normal_record :: "params \<Rightarrow> int \<Rightarrow> node \<Rightarrow> error + bson" where
  "normal_record p this currLevelElement =
     (case mg_objectToArray (Some (subdoc currLevelElement)) of
        Inl e \<Rightarrow> Inl e
      | Inr kvs \<Rightarrow>
          Inr (mg_arrayToObject (mg_concatArrays
            [Some [(''_ord'', BInt this)],
             Some [(''_depth'', BInt (n_depth currLevelElement))],
             Some [(''_idx'', BStr (n_idx currLevelElement))],
             (if showSchema p then Some [(''schema'', schema_value kvs)] else Some []),
             mg_map (\<lambda>element. (fst element, snd element))
               (mg_filter (\<lambda>this'. fst this' \<noteq> currChildFieldName p this
                                   \<and> \<not> (fst this' \<in> set (omitFields p))) kvs)])))"

text \<open>Source lines 62-119: the new value of \<open>result\<close>.\<close>

definition result_step :: "params \<Rightarrow> accum \<Rightarrow> int \<Rightarrow> error + bson list" where
  "result_step p val this =
     (case mg_first (subLevelsToInspect val) of
        None \<Rightarrow> Inr (result val @ [])
      | Some currLevelElement \<Rightarrow>
          (if this \<ge> maxElements p then Inr (result val @ [warning])
           else (case normal_record p this currLevelElement of
                   Inl e \<Rightarrow> Inl e
                 | Inr r \<Rightarrow> Inr (result val @ [r]))))"

text \<open>Source lines 146-161: the inner \<open>$reduce\<close> over the indices of the child array.\<close>

definition child_nodes :: "int \<Rightarrow> string \<Rightarrow> bson list \<Rightarrow> node list" where
  "child_nodes newDepthNumber currLevelIdx currLevelChildren =
     foldl (\<lambda>val this. val @
              [\<lparr>n_depth = newDepthNumber,
                n_idx = currLevelIdx @ ''_'' @ mg_toString this,
                subdoc = (case mg_arrayElemAt currLevelChildren this of None \<Rightarrow> BNull | Some c \<Rightarrow> c)\<rparr>])
       [] (mg_range 0 (int (length currLevelChildren)))"

text \<open>
  Source lines 144-163: the nodes pushed for a worklist head, given the name of the
  branching field to read. With an empty worklist the head is missing, every \<open>$getField\<close>
  on it is \<open>null\<close>, and nothing is pushed.
\<close>

definition pushed :: "params \<Rightarrow> string \<Rightarrow> node option \<Rightarrow> node list" where
  "pushed p field hd_elem =
     (case hd_elem of
        None \<Rightarrow> []
      | Some e \<Rightarrow>
          (let currLevelChildren = mg_getField field (Some (subdoc e));
               currLevelIdx = n_idx e;
               newDepthNumber = n_depth e + 1
           in (case currLevelChildren of
                 Some (BArr cs) \<Rightarrow>
                   (if newDepthNumber \<le> maxDepthVar p then child_nodes newDepthNumber currLevelIdx cs else [])
               | _ \<Rightarrow> [])))"

text \<open>Source lines 123-167: the new value of \<open>subLevelsToInspect\<close>.\<close>

definition subLevelsToInspect_step :: "params \<Rightarrow> accum \<Rightarrow> int \<Rightarrow> node list" where
  "subLevelsToInspect_step p val this =
     (let subLevelsToInspectSize = int (length (subLevelsToInspect val))
      in (if subLevelsToInspectSize > 0
          then mg_slice (subLevelsToInspect val) 1 (subLevelsToInspectSize + 1)
          else [])
         @ pushed p (if this \<le> 0 then startWithField p else connectToField p)
             (mg_first (subLevelsToInspect val)))"

text \<open>Source lines 59-170: one step of the outer \<open>$reduce\<close>.\<close>

definition reduce_in :: "params \<Rightarrow> accum \<Rightarrow> int \<Rightarrow> error + accum" where
  "reduce_in p val this =
     (case result_step p val this of
        Inl e \<Rightarrow> Inl e
      | Inr r \<Rightarrow> Inr \<lparr>result = r, subLevelsToInspect = subLevelsToInspect_step p val this\<rparr>)"

definition initialValue :: "(string \<times> bson) list \<Rightarrow> accum" where
  "initialValue root =
     \<lparr>result = [], subLevelsToInspect = [\<lparr>n_depth = 0, n_idx = ''0'', subdoc = BDoc root\<rparr>]\<rparr>"

text \<open>Source lines 49-58: the outer \<open>$reduce\<close>, on the input document \<open>$$ROOT\<close>.\<close>

definition reduce_value :: "params \<Rightarrow> (string \<times> bson) list \<Rightarrow> error + accum" where
  "reduce_value p root = mg_reduce (reduce_in p) (mg_range 0 (maxElements p + 1)) (initialValue root)"

definition node_value :: "node \<Rightarrow> bson" where
  "node_value e = BDoc [(''_depth'', BInt (n_depth e)), (''_idx'', BStr (n_idx e)), (''subdoc'', subdoc e)]"

definition accum_value :: "accum \<Rightarrow> bson" where
  "accum_value val =
     BDoc [(''result'', BArr (result val)),
           (''subLevelsToInspect'', BArr (map node_value (subLevelsToInspect val)))]"

text \<open>
  The value of the expression returned by \<open>graphDescend\<close> on one input document: the
  body of the outer \<open>$let\<close> is the \<open>$reduce\<close>, whose value is its last accumulator.
\<close>

definition graphDescend :: "params \<Rightarrow> (string \<times> bson) list \<Rightarrow> error + bson" where
  "graphDescend p root =
     (case reduce_value p root of Inl e \<Rightarrow> Inl e | Inr val \<Rightarrow> Inr (accum_value val))"

section \<open>Reference notions: levels of the document tree\<close>

text \<open>
  The branching field of a node by its depth: \<open>startWith\<close> at depth 0 and
  \<open>connectToField\<close> below. (The expression chooses by the iteration index, source
  lines 66 and 128; that the two agree on every visited node is proved below.)
\<close>

definition active_field :: "params \<Rightarrow> node \<Rightarrow> string" where
  "active_field p e = (if n_depth e = 0 then startWithField p else connectToField p)"

text \<open>The child nodes of a node: what source lines 144-163 push for it.\<close>

definition children :: "params \<Rightarrow> node \<Rightarrow> node list" where
  "children p e = pushed p (active_field p e) (Some e)"

definition root_node :: "(string \<times> bson) list \<Rightarrow> node" where
  "root_node root = \<lparr>n_depth = 0, n_idx = ''0'', subdoc = BDoc root\<rparr>"

text \<open>
  The nodes of the document tree level by level, and the level-order enumeration \<open>bfs\<close>
  of the nodes reachable within the clamped \<open>maxDepth\<close>: level 0, then level 1, and so on.
\<close>

primrec level :: "params \<Rightarrow> (string \<times> bson) list \<Rightarrow> nat \<Rightarrow> node list" where
  "level p root 0 = [root_node root]"
| "level p root (Suc d) = concat (map (children p) (level p root d))"

definition levels_upto :: "params \<Rightarrow> (string \<times> bson) list \<Rightarrow> nat \<Rightarrow> node list" where
  "levels_upto p root d = concat (map (level p root) [0..<d])"

definition bfs :: "params \<Rightarrow> (string \<times> bson) list \<Rightarrow> node list" where
  "bfs p root = levels_upto p root (Suc (nat (maxDepthVar p)))"

text \<open>
  The invariant of the worklist before step \<open>n\<close>: either it is the rest \<open>xs\<close> of the
  current level followed by the children of the part \<open>ys\<close> of the level already visited,
  \<open>n\<close> nodes having been visited, or it is empty and every node has been visited.
\<close>

definition at_pos :: "params \<Rightarrow> (string \<times> bson) list \<Rightarrow> nat \<Rightarrow> node list \<Rightarrow> bool" where
  "at_pos p root n wl \<longleftrightarrow>
     (\<exists>d ys xs. xs \<noteq> [] \<and> level p root d = ys @ xs \<and> wl = xs @ concat (map (children p) ys)
        \<and> n = length (levels_upto p root d) + length ys)"

definition queue_inv :: "params \<Rightarrow> (string \<times> bson) list \<Rightarrow> nat \<Rightarrow> node list \<Rightarrow> bool" where
  "queue_inv p root n wl \<longleftrightarrow> at_pos p root n wl \<or> (wl = [] \<and> length (bfs p root) \<le> n)"

text \<open>The records of a list of nodes visited from step \<open>i\<close> on, failing where one fails.\<close>

primrec records :: "params \<Rightarrow> int \<Rightarrow> node list \<Rightarrow> error + bson list" where
  "records p i [] = Inr []"
| "records p i (e # es) =
     (case normal_record p i e of
        Inl x \<Rightarrow> Inl x
      | Inr r \<Rightarrow> (case records p (i + 1) es of Inl x \<Rightarrow> Inl x | Inr rs \<Rightarrow> Inr (r # rs)))"

text \<open>The nodes that get a normal record: the first \<open>maxElements\<close> of the enumeration.\<close>

definition emitted_nodes :: "params \<Rightarrow> (string \<times> bson) list \<Rightarrow> node list" where
  "emitted_nodes p root = take (nat (maxElements p)) (bfs p root)"

text \<open>The \<open>k\<close> iteration indices from \<open>n\<close> on.\<close>

primrec steps_from :: "nat \<Rightarrow> nat \<Rightarrow> int list" where
  "steps_from n 0 = []"
| "steps_from n (Suc k) = int n # steps_from (Suc n) k"

text \<open>
  The pairs of a sub-document that the \<open>$filter\<close> of source lines 100-106 lets through,
  for a given branching field name.
\<close>

definition kept :: "params \<Rightarrow> string \<Rightarrow> (string \<times> bson) list \<Rightarrow> (string \<times> bson) list" where
  "kept p field kvs = filter (\<lambda>kv. fst kv \<noteq> field \<and> fst kv \<notin> set (omitFields p)) kvs"

text \<open>The fields of a node's sub-document that survive the filter at the node's depth.\<close>

definition kept_fields :: "params \<Rightarrow> node \<Rightarrow> (string \<times> bson) list" where
  "kept_fields p e = (case subdoc e of BDoc kvs \<Rightarrow> kept p (active_field p e) kvs | _ \<Rightarrow> [])"

text \<open>
  The pairs that source lines 80-97 put in front of the sub-document's own pairs, as a
  lookup by name.
\<close>

definition metadata :: "params \<Rightarrow> int \<Rightarrow> node \<Rightarrow> string \<Rightarrow> bson option" where
  "metadata p i e k =
     (if showSchema p \<and> k = ''schema''
      then Some (schema_value (case subdoc e of BDoc kvs \<Rightarrow> Some kvs | _ \<Rightarrow> None))
      else if k = ''_idx'' then Some (BStr (n_idx e))
      else if k = ''_depth'' then Some (BInt (n_depth e))
      else if k = ''_ord'' then Some (BInt i)
      else None)"

text \<open>The number of separators \<open>_\<close> in a path.\<close>

definition seps :: "string \<Rightarrow> nat" where
  "seps s = length (filter (\<lambda>c. c = CHR ''_'') s)"

text \<open>Reading a field of an emitted record; the marker and a \<open>null\<close> element have none.\<close>

definition record_field :: "bson \<Rightarrow> string \<Rightarrow> bson option" where
  "record_field r k = (case r of BDoc kvs \<Rightarrow> map_of kvs k | _ \<Rightarrow> None)"

section \<open>Example inputs\<close>

text \<open>The arguments of the examples: the defaults of \<open>graphDescend\<close>.\<close>

definition ex_params :: params where
  "ex_params = \<lparr>connectToField = ''children'', startWith = None, maxElements = 25,
                  omitFields = [], maxDepth = 100, showSchema = False\<rparr>"

text \<open>A two-level document: a root with two children, the second with one child.\<close>

definition ex_doc :: "(string \<times> bson) list" where
  "ex_doc =
     [(''name'', BStr ''r''),
      (''children'',
       BArr [BDoc [(''name'', BStr ''a'')],
             BDoc [(''name'', BStr ''b''), (''children'', BArr [BDoc [(''name'', BStr ''c'')]])]])]"

text \<open>The notion of the specification: a value that is a sequence of documents.\<close>

definition is_document :: "bson \<Rightarrow> bool" where
  "is_document v = (case v of BDoc _ \<Rightarrow> True | _ \<Rightarrow> False)"

definition sequence_of_documents :: "bson option \<Rightarrow> bool" where
  "sequence_of_documents v = (case v of Some (BArr cs) \<Rightarrow> list_all is_document cs | _ \<Rightarrow> False)"

section \<open>The worklist visits the tree level by level\<close>

lemma foldl_snoc_map: "foldl (\<lambda>v x. v @ [f x]) acc xs = acc @ map f xs"
  by (induction xs arbitrary: acc) simp_all

lemma mg_range_0: "mg_range 0 (int n) = map int [0..<n]"
  by (simp add: mg_range_def)

lemma child_nodes_map:
  "child_nodes d idx cs =
     map (\<lambda>k. \<lparr>n_depth = d, n_idx = idx @ ''_'' @ mg_toString (int k), subdoc = cs ! k\<rparr>) [0..<length cs]"
  by (simp add: child_nodes_def mg_range_0 foldl_snoc_map mg_arrayElemAt_def o_def)

lemma maxDepthVar_range: "0 \<le> maxDepthVar p \<and> maxDepthVar p \<le> 100"
  by (simp add: maxDepthVar_def)

lemma pushed_depth: "c \<in> set (pushed p f (Some e)) \<Longrightarrow> n_depth c = n_depth e + 1 \<and> n_depth c \<le> maxDepthVar p"
  by (auto simp: pushed_def child_nodes_map Let_def split: option.splits bson.splits if_splits)

lemma children_depth: "c \<in> set (children p e) \<Longrightarrow> n_depth c = n_depth e + 1 \<and> n_depth c \<le> maxDepthVar p"
  unfolding children_def by (rule pushed_depth)

lemma level_depth: "e \<in> set (level p root d) \<Longrightarrow> n_depth e = int d"
proof (induction d arbitrary: e)
  case 0 then show ?case by (simp add: root_node_def)
next
  case (Suc d)
  then obtain x where "x \<in> set (level p root d)" "e \<in> set (children p x)" by auto
  with Suc.IH[of x] children_depth[of e p x] show ?case by simp
qed

lemma level_bound: "e \<in> set (level p root d) \<Longrightarrow> int d \<le> maxDepthVar p"
proof (cases d)
  case 0 then show ?thesis using maxDepthVar_range[of p] by simp
next
  case (Suc d')
  assume "e \<in> set (level p root d)"
  with Suc obtain x where "x \<in> set (level p root d')" "e \<in> set (children p x)" by auto
  with children_depth[of e p x] level_depth[of x p root d'] level_depth[of e p root d] \<open>e \<in> set (level p root d)\<close>
  show ?thesis by simp
qed

lemma level_empty_beyond: "maxDepthVar p < int d \<Longrightarrow> level p root d = []"
  using level_bound[of _ p root d] by (cases "level p root d") (auto simp: not_le[symmetric])

lemma level_empty_mono: "level p root d = [] \<Longrightarrow> d \<le> d' \<Longrightarrow> level p root d' = []"
  by (induction d' ) (auto simp: le_Suc_eq)

lemma levels_upto_Suc: "levels_upto p root (Suc d) = levels_upto p root d @ level p root d"
  by (simp add: levels_upto_def)

lemma levels_upto_0: "levels_upto p root 0 = []"
  by (simp add: levels_upto_def)

lemma levels_upto_stable:
  "level p root d = [] \<Longrightarrow> d \<le> d' \<Longrightarrow> levels_upto p root d' = levels_upto p root d"
proof (induction d')
  case 0 then show ?case by simp
next
  case (Suc d')
  show ?case
  proof (cases "d \<le> d'")
    case True
    with Suc have "levels_upto p root d' = levels_upto p root d" by simp
    moreover have "level p root d' = []" using level_empty_mono[OF Suc.prems(1) True] .
    ultimately show ?thesis by (simp add: levels_upto_Suc)
  next
    case False with Suc.prems have "d = Suc d'" by simp
    then show ?thesis by simp
  qed
qed

lemma bfs_eq_levels_upto: "maxDepthVar p < int d \<Longrightarrow> bfs p root = levels_upto p root d"
proof -
  assume a: "maxDepthVar p < int d"
  let ?M = "Suc (nat (maxDepthVar p))"
  have e: "level p root ?M = []" by (rule level_empty_beyond) simp
  have "?M \<le> d" using a maxDepthVar_range[of p] by linarith
  from levels_upto_stable[OF e this] show ?thesis by (simp add: bfs_def)
qed

lemma levels_upto_prefix: "d \<le> d' \<Longrightarrow> \<exists>r. levels_upto p root d' = levels_upto p root d @ r"
  by (induction d') (auto simp: le_Suc_eq levels_upto_Suc)

lemma bfs_split:
  assumes "level p root d \<noteq> []"
  shows "\<exists>r. bfs p root = levels_upto p root d @ level p root d @ r"
proof -
  from assms obtain e where "e \<in> set (level p root d)" by (cases "level p root d") auto
  then have "int d \<le> maxDepthVar p" by (rule level_bound)
  then have "Suc d \<le> Suc (nat (maxDepthVar p))" by linarith
  from levels_upto_prefix[OF this, of p root] show ?thesis by (simp add: bfs_def levels_upto_Suc)
qed

lemma subLevelsToInspect_step_cases:
  "subLevelsToInspect_step p val this =
     (case subLevelsToInspect val of
        [] \<Rightarrow> []
      | e # t \<Rightarrow> t @ pushed p (currChildFieldName p this) (Some e))"
  by (cases "subLevelsToInspect val")
     (simp_all add: subLevelsToInspect_step_def mg_slice_def mg_first_def pushed_def currChildFieldName_def)

lemma bfs_of_empty_level:
  assumes "level p root d = []"
  shows "bfs p root = levels_upto p root d"
proof (cases "d \<le> Suc (nat (maxDepthVar p))")
  case True
  from levels_upto_stable[OF assms True] show ?thesis by (simp add: bfs_def)
next
  case False
  then have "maxDepthVar p < int d" by linarith
  then show ?thesis by (rule bfs_eq_levels_upto)
qed

lemma at_pos_head:
  assumes "at_pos p root n wl"
  shows "n < length (bfs p root) \<and> wl \<noteq> [] \<and> hd wl = bfs p root ! n \<and> (n = 0 \<longleftrightarrow> n_depth (hd wl) = 0)"
proof -
  from assms obtain d ys xs where xs: "xs \<noteq> []" and lv: "level p root d = ys @ xs"
    and wl: "wl = xs @ concat (map (children p) ys)"
    and n: "n = length (levels_upto p root d) + length ys"
    unfolding at_pos_def by blast
  from xs obtain e xs' where xse: "xs = e # xs'" by (cases xs) auto
  have ne: "level p root d \<noteq> []" using lv xs by auto
  from bfs_split[OF ne] obtain r where b: "bfs p root = levels_upto p root d @ level p root d @ r" by blast
  have hd: "hd wl = e" using wl xse by simp
  have b': "bfs p root = (levels_upto p root d @ ys) @ e # (xs' @ r)" using b lv xse by simp
  have nth: "bfs p root ! n = e" unfolding b' n using nth_append_length[of "levels_upto p root d @ ys" e "xs' @ r"] by simp
  have lt: "n < length (bfs p root)" unfolding b' n by simp
  have "e \<in> set (level p root d)" using lv xse by simp
  then have de: "n_depth e = int d" by (rule level_depth)
  have z: "n = 0 \<longleftrightarrow> d = 0"
  proof
    assume "n = 0"
    show "d = 0"
    proof (rule ccontr)
      assume "d \<noteq> 0"
      then obtain d' where "d = Suc d'" by (cases d) auto
      then have "1 \<le> d" by simp
      from levels_upto_prefix[OF this, of p root] obtain r where
        "levels_upto p root d = levels_upto p root 1 @ r" by blast
      then have "length (levels_upto p root d) = 1 + length r" by (simp add: levels_upto_def)
      then have "length (levels_upto p root d) \<ge> 1" by simp
      with n \<open>n = 0\<close> show False by simp
    qed
  next
    assume "d = 0"
    with lv xse have "ys = []" by (cases ys) auto
    with n \<open>d = 0\<close> show "n = 0" by (simp add: levels_upto_0)
  qed
  show ?thesis using lt wl xs hd nth z de by simp
qed

lemma at_pos_step:
  assumes "at_pos p root n (e # t)"
  shows "queue_inv p root (Suc n) (t @ children p e)"
proof -
  from assms obtain d ys xs where xs: "xs \<noteq> []" and lv: "level p root d = ys @ xs"
    and wl: "e # t = xs @ concat (map (children p) ys)"
    and n: "n = length (levels_upto p root d) + length ys"
    unfolding at_pos_def by blast
  from xs wl obtain xs' where xse: "xs = e # xs'" by (cases xs) auto
  with wl have t: "t = xs' @ concat (map (children p) ys)" by simp
  have new: "t @ children p e = xs' @ concat (map (children p) (ys @ [e]))" using t by simp
  show ?thesis
  proof (cases "xs' = []")
    case False
    have "at_pos p root (Suc n) (t @ children p e)"
      unfolding at_pos_def
      by (rule exI[of _ d], rule exI[of _ "ys @ [e]"], rule exI[of _ xs'])
         (use False lv xse new n in simp)
    then show ?thesis by (simp add: queue_inv_def)
  next
    case True
    then have full: "level p root d = ys @ [e]" using lv xse by simp
    then have nx: "t @ children p e = level p root (Suc d)" using new True by simp
    have len: "Suc n = length (levels_upto p root (Suc d))" using n full by (simp add: levels_upto_Suc)
    show ?thesis
    proof (cases "level p root (Suc d) = []")
      case True
      from bfs_of_empty_level[OF True] have "length (bfs p root) = Suc n" using len by simp
      then show ?thesis using nx True by (simp add: queue_inv_def)
    next
      case False
      have "at_pos p root (Suc n) (t @ children p e)"
        unfolding at_pos_def
        by (rule exI[of _ "Suc d"], rule exI[of _ "[]"], rule exI[of _ "level p root (Suc d)"])
           (use False nx len in simp)
      then show ?thesis by (simp add: queue_inv_def)
    qed
  qed
qed

lemma at_pos_init: "at_pos p root 0 [root_node root]"
  unfolding at_pos_def
  by (rule exI[of _ 0], rule exI[of _ "[]"], rule exI[of _ "[root_node root]"]) (simp add: levels_upto_0)

lemma queue_inv_step:
  assumes "queue_inv p root n (subLevelsToInspect val)"
  shows "queue_inv p root (Suc n) (subLevelsToInspect_step p val (int n))"
proof (cases "subLevelsToInspect val")
  case Nil
  with assms have "length (bfs p root) \<le> n" using at_pos_head[of p root n "[]"] by (auto simp: queue_inv_def)
  then show ?thesis using Nil by (simp add: subLevelsToInspect_step_cases queue_inv_def)
next
  case (Cons e t)
  with assms have ap: "at_pos p root n (e # t)" by (simp add: queue_inv_def)
  from at_pos_head[OF ap] have "n = 0 \<longleftrightarrow> n_depth e = 0" by simp
  then have "currChildFieldName p (int n) = active_field p e"
    by (auto simp: currChildFieldName_def active_field_def)
  then have "subLevelsToInspect_step p val (int n) = t @ children p e"
    using Cons by (simp add: subLevelsToInspect_step_cases children_def)
  with at_pos_step[OF ap] show ?thesis by simp
qed

lemma queue_inv_head:
  assumes "queue_inv p root n wl"
  shows "(wl = [] \<longleftrightarrow> length (bfs p root) \<le> n) \<and> (wl \<noteq> [] \<longrightarrow> hd wl = bfs p root ! n \<and> (n = 0 \<longleftrightarrow> n_depth (hd wl) = 0))"
  using assms at_pos_head[of p root n wl] by (auto simp: queue_inv_def)

lemma steps_from_upt: "steps_from n k = map int [n..<n + k]"
  by (induction k arbitrary: n) (simp_all add: upt_conv_Cons)

lemma mg_reduce_append:
  "mg_reduce f (xs @ ys) v = (case mg_reduce f xs v of Inl e \<Rightarrow> Inl e | Inr v' \<Rightarrow> mg_reduce f ys v')"
  by (induction xs arbitrary: v) (auto split: sum.splits)

lemma reduce_in_empty:
  "subLevelsToInspect val = [] \<Longrightarrow> reduce_in p val this = Inr val"
  by (simp add: reduce_in_def result_step_def mg_first_def subLevelsToInspect_step_cases)

lemma reduce_in_normal:
  "subLevelsToInspect val = e # t \<Longrightarrow> this < maxElements p \<Longrightarrow>
   reduce_in p val this =
     (case normal_record p this e of
        Inl x \<Rightarrow> Inl x
      | Inr r \<Rightarrow> Inr \<lparr>result = result val @ [r], subLevelsToInspect = subLevelsToInspect_step p val this\<rparr>)"
  by (simp add: reduce_in_def result_step_def mg_first_def split: sum.splits)

lemma reduce_in_overrun:
  "subLevelsToInspect val = e # t \<Longrightarrow> maxElements p \<le> this \<Longrightarrow>
   reduce_in p val this =
     Inr \<lparr>result = result val @ [warning], subLevelsToInspect = subLevelsToInspect_step p val this\<rparr>"
  by (simp add: reduce_in_def result_step_def mg_first_def)

lemma run_normal:
  assumes "queue_inv p root n (subLevelsToInspect val)" "int (n + k) \<le> maxElements p"
  shows "(case records p (int n) (take k (drop n (bfs p root))) of
            Inl x \<Rightarrow> mg_reduce (reduce_in p) (steps_from n k) val = Inl x
          | Inr rs \<Rightarrow> (\<exists>val'. mg_reduce (reduce_in p) (steps_from n k) val = Inr val'
                          \<and> result val' = result val @ rs
                          \<and> queue_inv p root (n + k) (subLevelsToInspect val')))"
  using assms
proof (induction k arbitrary: n val)
  case 0
  then show ?case by simp
next
  case (Suc k)
  note qh = queue_inv_head[OF Suc.prems(1)]
  show ?case
  proof (cases "subLevelsToInspect val")
    case Nil
    with qh have "length (bfs p root) \<le> n" by simp
    then have dr: "drop n (bfs p root) = []" by simp
    have st: "reduce_in p val (int n) = Inr val" using Nil by (rule reduce_in_empty)
    have qi: "queue_inv p root (Suc n) (subLevelsToInspect val)"
      using Nil \<open>length (bfs p root) \<le> n\<close> by (simp add: queue_inv_def)
    have "length (bfs p root) \<le> Suc n" using \<open>length (bfs p root) \<le> n\<close> by simp
    then have dr': "drop (Suc n) (bfs p root) = []" by simp
    from Suc.IH[OF qi] Suc.prems(2)
    show ?thesis using st dr dr' by simp
  next
    case (Cons e t)
    with qh have lt: "n < length (bfs p root)" and hd: "e = bfs p root ! n" by auto
    have dr: "drop n (bfs p root) = e # drop (Suc n) (bfs p root)"
      using Cons_nth_drop_Suc[OF lt] hd by simp
    have lim: "int n < maxElements p" using Suc.prems(2) by simp
    note st = reduce_in_normal[OF Cons lim]
    show ?thesis
    proof (cases "normal_record p (int n) e")
      case (Inl x)
      then show ?thesis using st dr by simp
    next
      case (Inr r)
      let ?v = "\<lparr>result = result val @ [r], subLevelsToInspect = subLevelsToInspect_step p val (int n)\<rparr>"
      have qi: "queue_inv p root (Suc n) (subLevelsToInspect ?v)"
        using queue_inv_step[OF Suc.prems(1)] by simp
      have le: "int (Suc n + k) \<le> maxElements p" using Suc.prems(2) by simp
      from Suc.IH[OF qi le] show ?thesis using st dr Inr
        by (auto split: sum.splits simp: add.commute)
    qed
  qed
qed

lemma mg_range_Suc:
  "0 \<le> m \<Longrightarrow> mg_range 0 (m + 1) = steps_from 0 (nat m) @ [m]"
  by (simp add: mg_range_def nat_add_distrib steps_from_upt)

lemma initial_inv: "queue_inv p root 0 (subLevelsToInspect (initialValue root))"
  using at_pos_init[of p root] by (simp add: queue_inv_def initialValue_def root_node_def)

lemma reduce_value_char:
  assumes m: "0 \<le> maxElements p"
  shows "(case records p 0 (emitted_nodes p root) of
            Inl x \<Rightarrow> reduce_value p root = Inl x
          | Inr rs \<Rightarrow> (\<exists>val. reduce_value p root = Inr val
                \<and> result val = rs @ (if nat (maxElements p) < length (bfs p root) then [warning] else [])
                \<and> queue_inv p root (Suc (nat (maxElements p))) (subLevelsToInspect val)))"
proof -
  let ?m = "nat (maxElements p)"
  have le: "int (0 + ?m) \<le> maxElements p" using m by simp
  note rn = run_normal[OF initial_inv le, of root]
  have rv: "reduce_value p root =
      (case mg_reduce (reduce_in p) (steps_from 0 ?m) (initialValue root) of
         Inl e \<Rightarrow> Inl e | Inr v' \<Rightarrow> mg_reduce (reduce_in p) [maxElements p] v')"
    by (simp only: reduce_value_def mg_range_Suc[OF m] mg_reduce_append)
  show ?thesis
  proof (cases "records p 0 (emitted_nodes p root)")
    case (Inl x)
    with rn have "mg_reduce (reduce_in p) (steps_from 0 ?m) (initialValue root) = Inl x"
      by (simp add: emitted_nodes_def)
    with rv Inl show ?thesis by simp
  next
    case (Inr rs)
    with rn obtain v' where v': "mg_reduce (reduce_in p) (steps_from 0 ?m) (initialValue root) = Inr v'"
      "result v' = rs" "queue_inv p root ?m (subLevelsToInspect v')"
      by (auto simp: emitted_nodes_def initialValue_def)
    have im: "int ?m = maxElements p" using m by simp
    note qh = queue_inv_head[OF v'(3)]
    note qs = queue_inv_step[OF v'(3)]
    show ?thesis
    proof (cases "subLevelsToInspect v'")
      case Nil
      then have "reduce_in p v' (maxElements p) = Inr v'" by (rule reduce_in_empty)
      moreover have "queue_inv p root (Suc ?m) (subLevelsToInspect v')"
        using Nil qh by (simp add: queue_inv_def)
      ultimately show ?thesis using rv v' Inr Nil qh by simp
    next
      case (Cons e t)
      from reduce_in_overrun[OF Cons, of p "maxElements p"]
      have "reduce_in p v' (maxElements p) =
          Inr \<lparr>result = result v' @ [warning], subLevelsToInspect = subLevelsToInspect_step p v' (maxElements p)\<rparr>"
        by simp
      then show ?thesis using rv v' Inr Cons qh qs im by simp
    qed
  qed
qed

lemma reduce_value_negative:
  "maxElements p < 0 \<Longrightarrow> reduce_value p root = Inr (initialValue root)"
  by (simp add: reduce_value_def mg_range_def)

lemma records_nth:
  "records p i es = Inr rs \<Longrightarrow>
     length rs = length es \<and> (\<forall>j<length es. normal_record p (i + int j) (es ! j) = Inr (rs ! j))"
proof (induction es arbitrary: i rs)
  case Nil then show ?case by simp
next
  case (Cons e es)
  from Cons.prems obtain r rs' where r: "normal_record p i e = Inr r"
    and rs': "records p (i + 1) es = Inr rs'" and rs: "rs = r # rs'"
    by (auto split: sum.splits)
  from Cons.IH[OF rs'] have len: "length rs' = length es"
    and nth: "\<And>j. j < length es \<Longrightarrow> normal_record p (i + 1 + int j) (es ! j) = Inr (rs' ! j)" by auto
  show ?case
  proof (intro conjI allI impI)
    show "length rs = length (e # es)" using len rs by simp
  next
    fix j assume "j < length (e # es)"
    show "normal_record p (i + int j) ((e # es) ! j) = Inr (rs ! j)"
    proof (cases j)
      case 0 then show ?thesis using r rs by simp
    next
      case (Suc j')
      with \<open>j < length (e # es)\<close> have "j' < length es" by simp
      have "i + int j = i + 1 + int j'" using Suc by simp
      with nth[OF \<open>j' < length es\<close>] show ?thesis using Suc rs by (simp add: add.assoc)
    qed
  qed
qed

lemma bfs_Cons: "\<exists>r. bfs p root = root_node root # r \<and> (\<forall>e\<in>set r. 1 \<le> n_depth e)"
proof -
  let ?M = "nat (maxDepthVar p)"
  have "bfs p root = concat (map (level p root) (0 # [1..<Suc ?M]))"
    by (simp add: bfs_def levels_upto_def upt_conv_Cons)
  then have b: "bfs p root = root_node root # concat (map (level p root) [1..<Suc ?M])" by simp
  have "\<forall>e\<in>set (concat (map (level p root) [1..<Suc ?M])). 1 \<le> n_depth e"
    using level_depth[of _ p root] by fastforce
  with b show ?thesis by blast
qed

lemma bfs_nth_depth0:
  assumes "j < length (bfs p root)"
  shows "(j = 0 \<longleftrightarrow> n_depth (bfs p root ! j) = 0) \<and> (j = 0 \<longrightarrow> bfs p root ! j = root_node root)"
proof -
  from bfs_Cons[of p root] obtain r where b: "bfs p root = root_node root # r"
    and r: "\<forall>e\<in>set r. 1 \<le> n_depth e" by blast
  show ?thesis
  proof (cases j)
    case 0 then show ?thesis using b by (simp add: root_node_def)
  next
    case (Suc j')
    with assms b have "j' < length r" by simp
    then have "r ! j' \<in> set r" by simp
    with r have "1 \<le> n_depth (r ! j')" by blast
    then show ?thesis using Suc b by simp
  qed
qed

lemma field_choice_agrees:
  "j < length (bfs p root) \<Longrightarrow> currChildFieldName p (int j) = active_field p (bfs p root ! j)"
  using bfs_nth_depth0[of j p root] by (auto simp: currChildFieldName_def active_field_def)

text \<open>What a successful run leaves at each index of \<open>result\<close>.\<close>

lemma result_index:
  assumes ok: "reduce_value p root = Inr acc" and j: "j < length (result acc)"
  shows "j < length (bfs p root) \<and> 0 \<le> maxElements p \<and>
         (if int j < maxElements p
          then normal_record p (int j) (bfs p root ! j) = Inr (result acc ! j)
          else int j = maxElements p \<and> result acc ! j = warning \<and> Suc j = length (result acc))"
proof (cases "maxElements p < 0")
  case True
  with ok reduce_value_negative[of p root] have "acc = initialValue root" by simp
  with j show ?thesis by (simp add: initialValue_def)
next
  case False
  then have m: "0 \<le> maxElements p" by simp
  let ?m = "nat (maxElements p)"
  note ch = reduce_value_char[OF m, of root]
  from ch ok obtain rs where rs: "records p 0 (emitted_nodes p root) = Inr rs"
    and res: "result acc = rs @ (if ?m < length (bfs p root) then [warning] else [])"
    by (cases "records p 0 (emitted_nodes p root)") auto
  from records_nth[OF rs] have len: "length rs = length (emitted_nodes p root)"
    and nth: "\<And>i. i < length (emitted_nodes p root) \<Longrightarrow> normal_record p (int i) (emitted_nodes p root ! i) = Inr (rs ! i)"
    by auto
  have elen: "length (emitted_nodes p root) = min ?m (length (bfs p root))"
    by (simp add: emitted_nodes_def min.commute)
  show ?thesis
  proof (cases "j < length rs")
    case True
    then have "j < ?m" "j < length (bfs p root)" using len elen by auto
    moreover have "emitted_nodes p root ! j = bfs p root ! j" using \<open>j < ?m\<close> by (simp add: emitted_nodes_def)
    moreover have "result acc ! j = rs ! j" using True res by (simp add: nth_append)
    ultimately show ?thesis using nth[of j] True len m by auto
  next
    case False
    with j res have w: "?m < length (bfs p root)" and jl: "j = length rs" by (auto split: if_splits)
    then have lm: "length rs = ?m" using len elen by simp
    have "result acc = rs @ [warning]" using res w by simp
    then have "result acc ! j = warning" "Suc j = length (result acc)" using jl by simp_all
    then show ?thesis using w jl lm m by simp
  qed
qed

lemma result_length:
  assumes ok: "reduce_value p root = Inr acc" and m: "0 \<le> maxElements p"
  shows "length (result acc) = min (nat (maxElements p)) (length (bfs p root))
           + (if nat (maxElements p) < length (bfs p root) then 1 else 0)"
    and "subLevelsToInspect acc = [] \<longleftrightarrow> length (bfs p root) \<le> Suc (nat (maxElements p))"
proof -
  from reduce_value_char[OF m, of root] ok obtain rs where rs: "records p 0 (emitted_nodes p root) = Inr rs"
    and res: "result acc = rs @ (if nat (maxElements p) < length (bfs p root) then [warning] else [])"
    and qi: "queue_inv p root (Suc (nat (maxElements p))) (subLevelsToInspect acc)"
    by (cases "records p 0 (emitted_nodes p root)") auto
  from records_nth[OF rs] have "length rs = min (nat (maxElements p)) (length (bfs p root))"
    by (simp add: emitted_nodes_def min.commute)
  with res show "length (result acc) = min (nat (maxElements p)) (length (bfs p root))
           + (if nat (maxElements p) < length (bfs p root) then 1 else 0)" by simp
  from queue_inv_head[OF qi] show "subLevelsToInspect acc = [] \<longleftrightarrow> length (bfs p root) \<le> Suc (nat (maxElements p))"
    by simp
qed

lemma map_of_foldl_update:
  "map_of (foldl (\<lambda>d kv. AList.update (fst kv) (snd kv) d) d0 kvs) k =
     (case map_of (rev kvs) k of Some v \<Rightarrow> Some v | None \<Rightarrow> map_of d0 k)"
proof (induction kvs arbitrary: d0)
  case Nil then show ?case by simp
next
  case (Cons x xs)
  show ?case
    by (simp add: Cons.IH update_conv' map_add_def split: option.splits)
qed

lemma mg_getField_doc: "mg_getField k (Some (BDoc xs)) = map_of xs k"
  by (simp add: mg_getField_def)

lemma normal_record_cases:
  "normal_record p i e =
     (case subdoc e of
        BDoc kvs \<Rightarrow>
          Inr (BDoc (foldl (\<lambda>d kv. AList.update (fst kv) (snd kv) d) []
            ([(''_ord'', BInt i), (''_depth'', BInt (n_depth e)), (''_idx'', BStr (n_idx e))]
             @ (if showSchema p then [(''schema'', schema_value (Some kvs))] else [])
             @ kept p (currChildFieldName p i) kvs)))
      | BNull \<Rightarrow> Inr BNull
      | _ \<Rightarrow> Inl ObjectToArrayNeedsDocument)"
  by (cases "subdoc e")
     (simp_all add: normal_record_def mg_objectToArray_def mg_arrayToObject_def mg_map_def
        mg_filter_def kept_def)

lemma normal_record_lookup:
  assumes sd: "subdoc e = BDoc kvs"
  shows "\<exists>r. normal_record p i e = Inr r \<and>
     (\<forall>k. mg_getField k (Some r) =
        (case map_of (rev (kept p (currChildFieldName p i) kvs)) k of
           Some v \<Rightarrow> Some v | None \<Rightarrow> metadata p i e k))"
proof -
  let ?L = "[(''_ord'', BInt i), (''_depth'', BInt (n_depth e)), (''_idx'', BStr (n_idx e))]
             @ (if showSchema p then [(''schema'', schema_value (Some kvs))] else [])
             @ kept p (currChildFieldName p i) kvs"
  let ?xs = "foldl (\<lambda>d kv. AList.update (fst kv) (snd kv) d) [] ?L"
  have r: "normal_record p i e = Inr (BDoc ?xs)" using sd by (simp add: normal_record_cases)
  have "\<And>k. map_of ?xs k =
        (case map_of (rev (kept p (currChildFieldName p i) kvs)) k of
           Some v \<Rightarrow> Some v | None \<Rightarrow> metadata p i e k)"
    unfolding map_of_foldl_update
    by (simp add: metadata_def sd map_add_def split: option.splits)
  with r show ?thesis by (simp add: mg_getField_doc)
qed

lemma normal_record_fields:
  assumes r: "normal_record p i e = Inr (BDoc xs)"
    and f: "currChildFieldName p i = active_field p e"
  shows "map_of xs k =
     (case map_of (rev (kept_fields p e)) k of Some v \<Rightarrow> Some v | None \<Rightarrow> metadata p i e k)"
proof -
  from r obtain kvs where sd: "subdoc e = BDoc kvs"
    by (cases "subdoc e") (simp_all add: normal_record_cases)
  from normal_record_lookup[OF sd, of p i] r
  have "mg_getField k (Some (BDoc xs)) =
        (case map_of (rev (kept p (currChildFieldName p i) kvs)) k of
           Some v \<Rightarrow> Some v | None \<Rightarrow> metadata p i e k)" by auto
  then show ?thesis using sd f by (simp add: mg_getField_doc kept_fields_def)
qed

lemma normal_record_not_warning: "normal_record p i e = Inr r \<Longrightarrow> r \<noteq> warning"
proof
  assume r: "normal_record p i e = Inr r" and w: "r = warning"
  then obtain kvs where sd: "subdoc e = BDoc kvs"
    by (cases "subdoc e") (simp_all add: normal_record_cases warning_def)
  from normal_record_lookup[OF sd, of p i] r
  have "mg_getField ''_ord'' (Some r) \<noteq> None"
    by (auto simp: metadata_def split: option.splits)
  moreover have "mg_getField ''_ord'' (Some warning) = None" by (simp add: warning_def mg_getField_doc)
  ultimately show False using w by simp
qed

lemma map_of_filter_key: "(\<And>v. P (k, v)) \<Longrightarrow> map_of (filter P xs) k = map_of xs k"
  by (induction xs) auto

lemma map_of_rev_distinct: "distinct (map fst xs) \<Longrightarrow> map_of (rev xs) k = map_of xs k"
proof (induction xs)
  case Nil then show ?case by simp
next
  case (Cons x xs)
  then have ih: "map_of (rev xs) k = map_of xs k" and nx: "fst x \<notin> fst ` set xs" by auto
  from nx have "map_of xs (fst x) = None" by (simp add: map_of_eq_None_iff)
  then show ?case using ih by (cases x) (auto simp: map_add_def split: option.splits)
qed

lemma map_of_rev_kept:
  "k \<noteq> field \<Longrightarrow> k \<notin> set (omitFields p) \<Longrightarrow> map_of (rev (kept p field kvs)) k = map_of (rev kvs) k"
  unfolding kept_def rev_filter by (rule map_of_filter_key) simp

lemma map_of_rev_kept_none:
  "k = field \<or> k \<in> set (omitFields p) \<Longrightarrow> map_of (rev (kept p field kvs)) k = None"
  by (auto simp: kept_def map_of_eq_None_iff)

lemma result_step_normal:
  "subLevelsToInspect val = e # t \<Longrightarrow> this < maxElements p \<Longrightarrow> normal_record p this e = Inr r \<Longrightarrow>
   result_step p val this = Inr (result val @ [r])"
  by (simp add: result_step_def mg_first_def)

section \<open>Order, depth and paths of the level-order enumeration\<close>

lemma mem_levels_upto: "e \<in> set (levels_upto p root d) \<longleftrightarrow> (\<exists>d'<d. e \<in> set (level p root d'))"
  by (auto simp: levels_upto_def)

lemma mem_bfs: "e \<in> set (bfs p root) \<longleftrightarrow> (\<exists>d. e \<in> set (level p root d))"
proof
  assume "e \<in> set (bfs p root)"
  then show "\<exists>d. e \<in> set (level p root d)" by (auto simp: bfs_def mem_levels_upto)
next
  assume "\<exists>d. e \<in> set (level p root d)"
  then obtain d where d: "e \<in> set (level p root d)" by blast
  from level_bound[OF d] have "d < Suc (nat (maxDepthVar p))" by linarith
  with d show "e \<in> set (bfs p root)" unfolding bfs_def mem_levels_upto by blast
qed

lemma sorted_levels_upto: "sorted (map n_depth (levels_upto p root d))"
proof (induction d)
  case 0 show ?case by (simp add: levels_upto_0)
next
  case (Suc d)
  have a: "\<forall>x\<in>set (levels_upto p root d). \<forall>y\<in>set (level p root d). n_depth x \<le> n_depth y"
    using level_depth[of _ p root] by (fastforce simp: mem_levels_upto)
  have b: "sorted (map n_depth (level p root d))"
    using level_depth[of _ p root d] by (simp add: sorted_wrt_iff_nth_less sorted_map)
  show ?case using Suc a b by (simp add: levels_upto_Suc sorted_append)
qed

lemma bfs_depth_mono:
  "i \<le> j \<Longrightarrow> j < length (bfs p root) \<Longrightarrow> n_depth (bfs p root ! i) \<le> n_depth (bfs p root ! j)"
  using sorted_levels_upto[of p root "Suc (nat (maxDepthVar p))"]
  by (simp add: bfs_def sorted_iff_nth_mono)

lemma bfs_depth_range:
  "e \<in> set (bfs p root) \<Longrightarrow> 0 \<le> n_depth e \<and> n_depth e \<le> maxDepthVar p"
  using level_depth[of e p root] level_bound[of e p root] by (auto simp: mem_bfs)

lemma children_eq:
  "children p e =
     (case mg_getField (active_field p e) (Some (subdoc e)) of
        Some (BArr cs) \<Rightarrow>
          (if n_depth e + 1 \<le> maxDepthVar p
           then map (\<lambda>k. \<lparr>n_depth = n_depth e + 1, n_idx = n_idx e @ ''_'' @ mg_toString (int k), subdoc = cs ! k\<rparr>) [0..<length cs]
           else [])
      | _ \<Rightarrow> [])"
  by (simp add: children_def pushed_def child_nodes_map Let_def split: option.splits bson.splits)

lemma child_shape:
  assumes "c \<in> set (children p e)"
  shows "\<exists>cs k. mg_getField (active_field p e) (Some (subdoc e)) = Some (BArr cs) \<and> k < length cs
          \<and> n_depth e + 1 \<le> maxDepthVar p
          \<and> c = \<lparr>n_depth = n_depth e + 1, n_idx = n_idx e @ ''_'' @ mg_toString (int k), subdoc = cs ! k\<rparr>"
proof (cases "mg_getField (active_field p e) (Some (subdoc e))")
  case None
  with assms show ?thesis by (simp add: children_eq)
next
  case (Some v)
  show ?thesis
  proof (cases v)
    case (BArr cs)
    with Some assms have le: "n_depth e + 1 \<le> maxDepthVar p"
      and "c \<in> (\<lambda>k. \<lparr>n_depth = n_depth e + 1, n_idx = n_idx e @ ''_'' @ mg_toString (int k), subdoc = cs ! k\<rparr>) ` {0..<length cs}"
      by (auto simp: children_eq split: if_splits)
    then obtain k where "k < length cs"
      "c = \<lparr>n_depth = n_depth e + 1, n_idx = n_idx e @ ''_'' @ mg_toString (int k), subdoc = cs ! k\<rparr>"
      by auto
    with Some BArr le show ?thesis by blast
  qed (use Some assms in \<open>simp_all add: children_eq\<close>)
qed

lemma bfs_parent:
  assumes j: "j < length (bfs p root)" and pos: "0 < j"
  shows "\<exists>q<j. bfs p root ! j \<in> set (children p (bfs p root ! q))"
proof -
  let ?c = "bfs p root ! j"
  have "?c \<in> set (bfs p root)" using j by simp
  then obtain d where d: "?c \<in> set (level p root d)" by (auto simp: mem_bfs)
  from bfs_nth_depth0[OF j] pos have "n_depth ?c \<noteq> 0" by simp
  with level_depth[OF d] obtain d' where dd: "d = Suc d'" by (cases d) auto
  with d obtain x where x: "x \<in> set (level p root d')" "?c \<in> set (children p x)" by auto
  from x(1) have "x \<in> set (bfs p root)" by (auto simp: mem_bfs)
  then obtain q where q: "q < length (bfs p root)" "bfs p root ! q = x" by (auto simp: in_set_conv_nth)
  have "n_depth x < n_depth ?c" using children_depth[OF x(2)] by simp
  have "q < j"
  proof (rule ccontr)
    assume "\<not> q < j"
    then have "j \<le> q" by simp
    from bfs_depth_mono[OF this q(1)] q(2) \<open>n_depth x < n_depth ?c\<close> show False by simp
  qed
  with q x show ?thesis by blast
qed

lemma zero_code: "(of_char CHR ''0'' :: nat) = 48" by simp
lemma sep_code: "(of_char CHR ''_'' :: nat) = 95" by simp

lemma digit_char_code: "d < 10 \<Longrightarrow> (of_char (digit_char d) :: nat) = 48 + d"
  unfolding digit_char_def zero_code by (simp only: of_char_of) simp

lemma digit_char_inj: "d < 10 \<Longrightarrow> d' < 10 \<Longrightarrow> digit_char d = digit_char d' \<Longrightarrow> d = d'"
proof -
  assume d: "d < 10" and d': "d' < 10" and e: "digit_char d = digit_char d'"
  from e have "(of_char (digit_char d) :: nat) = of_char (digit_char d')" by (rule arg_cong)
  then have "48 + d = 48 + d'" unfolding digit_char_code[OF d] digit_char_code[OF d'] .
  then show "d = d'" by (rule add_left_imp_eq)
qed

lemma digit_char_not_sep: "d < 10 \<Longrightarrow> digit_char d \<noteq> CHR ''_''"
proof
  assume d: "d < 10" and e: "digit_char d = CHR ''_''"
  from e have "(of_char (digit_char d) :: nat) = of_char CHR ''_''" by (rule arg_cong)
  then have "48 + d = 95" unfolding digit_char_code[OF d] sep_code .
  with d show False by linarith
qed

lemma digits_small: "n < 10 \<Longrightarrow> digits n = [digit_char n]"
  by (subst digits.simps) (simp only: if_True)

lemma digits_large: "\<not> n < 10 \<Longrightarrow> digits n = digits (n div 10) @ [digit_char (n mod 10)]"
  by (subst digits.simps) (simp only: if_False)

lemma digits_no_sep: "CHR ''_'' \<notin> set (digits n)"
proof (induction n rule: digits.induct)
  case (1 n)
  show ?case
  proof (cases "n < 10")
    case True
    then show ?thesis using digit_char_not_sep[of n] by (simp only: digits_small) simp
  next
    case False
    have "n mod 10 < 10" by simp
    from digit_char_not_sep[OF this] 1[OF False] show ?thesis
      by (simp only: digits_large[OF False]) simp
  qed
qed

lemma digits_nonempty: "digits n \<noteq> []"
proof (cases "n < 10")
  case True then show ?thesis by (simp only: digits_small) simp
next
  case False then show ?thesis by (simp only: digits_large[OF False]) simp
qed

lemma digits_inj: "digits n = digits n' \<Longrightarrow> n = n'"
proof (induction n arbitrary: n' rule: digits.induct)
  case (1 n)
  show ?case
  proof (cases "n < 10")
    case True
    note dn = digits_small[OF True]
    show ?thesis
    proof (cases "n' < 10")
      case n': True
      from "1.prems" have "[digit_char n] = [digit_char n']" unfolding dn digits_small[OF n'] .
      then have "digit_char n = digit_char n'" by simp
      from digit_char_inj[OF True n' this] show ?thesis .
    next
      case False
      from "1.prems" have "[digit_char n] = digits (n' div 10) @ [digit_char (n' mod 10)]"
        unfolding dn digits_large[OF False] .
      then have "digits (n' div 10) = []" by (cases "digits (n' div 10)") simp_all
      with digits_nonempty show ?thesis by blast
    qed
  next
    case False
    note dn = digits_large[OF False]
    show ?thesis
    proof (cases "n' < 10")
      case True
      from "1.prems" have "digits (n div 10) @ [digit_char (n mod 10)] = [digit_char n']"
        unfolding dn digits_small[OF True] .
      then have "digits (n div 10) = []" by (cases "digits (n div 10)") simp_all
      with digits_nonempty show ?thesis by blast
    next
      case n': False
      from "1.prems" have "digits (n div 10) @ [digit_char (n mod 10)] = digits (n' div 10) @ [digit_char (n' mod 10)]"
        unfolding dn digits_large[OF n'] .
      then have a: "digits (n div 10) = digits (n' div 10)"
        and b: "digit_char (n mod 10) = digit_char (n' mod 10)" by simp_all
      from "1.IH"[OF False a] have q: "n div 10 = n' div 10" .
      have "n mod 10 < 10" "n' mod 10 < 10" by simp_all
      from digit_char_inj[OF this b] have r: "n mod 10 = n' mod 10" .
      have "n = 10 * (n div 10) + n mod 10" by simp
      also have "\<dots> = 10 * (n' div 10) + n' mod 10" unfolding q r ..
      also have "\<dots> = n'" by simp
      finally show ?thesis .
    qed
  qed
qed

lemma mg_toString_nat: "mg_toString (int k) = digits k"
  by (simp add: mg_toString_def)

lemma sep_split:
  "CHR ''_'' \<notin> set u \<Longrightarrow> CHR ''_'' \<notin> set v \<Longrightarrow> a @ CHR ''_'' # u = b @ CHR ''_'' # v \<Longrightarrow> a = b \<and> u = v"
proof (induction a arbitrary: b)
  case Nil
  then show ?case by (cases b) auto
next
  case (Cons x a)
  then show ?case by (cases b) auto
qed

lemma child_idx_inj:
  "s @ ''_'' @ mg_toString (int k) = s' @ ''_'' @ mg_toString (int k') \<Longrightarrow> s = s' \<and> k = k'"
  using sep_split[of "digits k" "digits k'" s s'] digits_no_sep digits_inj
  by (auto simp: mg_toString_nat)

lemma seps_child: "seps (s @ ''_'' @ mg_toString (int k)) = Suc (seps s)"
proof -
  have "filter (\<lambda>c. c = CHR ''_'') (digits k) = []" using digits_no_sep[of k] by (auto simp: filter_empty_conv)
  then show ?thesis by (simp add: seps_def mg_toString_nat)
qed

lemma level_seps: "e \<in> set (level p root d) \<Longrightarrow> seps (n_idx e) = d"
proof (induction d arbitrary: e)
  case 0 then show ?case by (simp add: root_node_def seps_def)
next
  case (Suc d)
  then obtain x where x: "x \<in> set (level p root d)" "e \<in> set (children p x)" by auto
  from child_shape[OF x(2)] obtain k where "n_idx e = n_idx x @ ''_'' @ mg_toString (int k)" by auto
  with Suc.IH[OF x(1)] show ?case by (simp only: seps_child)
qed

lemma children_idx_distinct: "distinct (map n_idx (children p e))"
proof -
  have inj: "inj_on (\<lambda>k. n_idx e @ ''_'' @ mg_toString (int k)) A" for A
    using child_idx_inj[of "n_idx e" _ "n_idx e"] unfolding inj_on_def by blast
  have d: "distinct (map n_idx (map (\<lambda>k. \<lparr>n_depth = dd, n_idx = n_idx e @ ''_'' @ mg_toString (int k), subdoc = cs ! k\<rparr>) [0..<length cs]))"
    for dd cs
    using inj[of "set [0..<length cs]"] by (simp only: map_map o_def node.simps distinct_map distinct_upt simp_thms)
  show ?thesis
  proof (cases "mg_getField (active_field p e) (Some (subdoc e))")
    case None then show ?thesis by (simp add: children_eq)
  next
    case (Some v)
    show ?thesis
    proof (cases v)
      case (BArr cs)
      show ?thesis unfolding children_eq Some BArr using d[of "n_depth e + 1" cs]
        by (simp only: option.case bson.case split: if_splits) simp
    qed (use Some in \<open>simp_all add: children_eq\<close>)
  qed
qed

lemma concat_children_distinct:
  "distinct (map n_idx es) \<Longrightarrow> distinct (map n_idx (concat (map (children p) es)))"
proof (induction es)
  case Nil then show ?case by simp
next
  case (Cons e es)
  have disj: "set (map n_idx (children p e)) \<inter> set (map n_idx (concat (map (children p) es))) = {}"
  proof (rule ccontr)
    assume "\<not> ?thesis"
    then obtain c c' x where c: "c \<in> set (children p e)" and x: "x \<in> set es"
      and c': "c' \<in> set (children p x)" and eq: "n_idx c = n_idx c'" by auto
    from child_shape[OF c] obtain k where k: "n_idx c = n_idx e @ ''_'' @ mg_toString (int k)" by auto
    from child_shape[OF c'] obtain k' where k': "n_idx c' = n_idx x @ ''_'' @ mg_toString (int k')" by auto
    from child_idx_inj[of "n_idx e" k "n_idx x" k'] k k' eq have "n_idx e = n_idx x" by simp
    with x Cons.prems show False by force
  qed
  from Cons have "distinct (map n_idx (concat (map (children p) es)))" by simp
  with disj children_idx_distinct[of p e] show ?case by simp
qed

lemma level_idx_distinct: "distinct (map n_idx (level p root d))"
  by (induction d) (simp_all add: concat_children_distinct)

lemma levels_upto_idx_distinct: "distinct (map n_idx (levels_upto p root d))"
proof (induction d)
  case 0 show ?case by (simp add: levels_upto_0)
next
  case (Suc d)
  have "set (map n_idx (levels_upto p root d)) \<inter> set (map n_idx (level p root d)) = {}"
  proof (rule ccontr)
    assume "\<not> ?thesis"
    then obtain x y where x: "x \<in> set (levels_upto p root d)" and y: "y \<in> set (level p root d)"
      and eq: "n_idx x = n_idx y" by auto
    from x obtain d' where "d' < d" "x \<in> set (level p root d')" by (auto simp: mem_levels_upto)
    with level_seps[of x p root d'] level_seps[OF y] eq show False by simp
  qed
  with Suc level_idx_distinct[of p root d] show ?case by (simp add: levels_upto_Suc)
qed

lemma bfs_idx_distinct: "distinct (map n_idx (bfs p root))"
  by (simp add: bfs_def levels_upto_idx_distinct)

lemma bfs_nonempty: "0 < length (bfs p root)"
  using bfs_Cons[of p root] by auto

lemma result_marker_index:
  assumes ok: "reduce_value p root = Inr acc" and j: "j < length (result acc)"
  shows "result acc ! j = warning \<longleftrightarrow> int j = maxElements p"
proof (cases "int j < maxElements p")
  case True
  with result_index[OF ok j] have "normal_record p (int j) (bfs p root ! j) = Inr (result acc ! j)" by simp
  from normal_record_not_warning[OF this] True show ?thesis by simp
next
  case False
  with result_index[OF ok j] show ?thesis by simp
qed

lemma record_field_doc: "record_field (BDoc xs) k = map_of xs k"
  by (simp add: record_field_def)

lemma record_field_warning_meta:
  "k \<in> {''_ord'', ''_depth'', ''_idx'', ''schema''} \<Longrightarrow> record_field warning k = None"
  by (auto simp: record_field_def warning_def)

lemma normal_index:
  assumes ok: "reduce_value p root = Inr acc" and j: "j < length (result acc)"
    and nw: "result acc ! j \<noteq> warning"
  shows "int j < maxElements p \<and> j < length (bfs p root)
         \<and> bfs p root ! j \<in> set (emitted_nodes p root)
         \<and> normal_record p (int j) (bfs p root ! j) = Inr (result acc ! j)
         \<and> currChildFieldName p (int j) = active_field p (bfs p root ! j)"
proof -
  from result_index[OF ok j] nw have lt: "int j < maxElements p" and jb: "j < length (bfs p root)"
    and r: "normal_record p (int j) (bfs p root ! j) = Inr (result acc ! j)"
    by (auto split: if_splits)
  from lt have "j < nat (maxElements p)" by linarith
  with jb have "j < length (emitted_nodes p root)" "emitted_nodes p root ! j = bfs p root ! j"
    by (simp_all add: emitted_nodes_def)
  then have "bfs p root ! j \<in> set (emitted_nodes p root)" by (metis nth_mem)
  with lt jb r field_choice_agrees[OF jb] show ?thesis by simp
qed

lemma record_metadata:
  assumes ok: "reduce_value p root = Inr acc" and j: "j < length (result acc)"
    and nw: "result acc ! j \<noteq> warning"
    and doc: "result acc ! j = BDoc fs"
    and own: "k \<notin> fst ` set (kept_fields p (bfs p root ! j))"
  shows "record_field (result acc ! j) k = metadata p (int j) (bfs p root ! j) k"
proof -
  from normal_index[OF ok j nw] doc
  have r: "normal_record p (int j) (bfs p root ! j) = Inr (BDoc fs)"
    and f: "currChildFieldName p (int j) = active_field p (bfs p root ! j)" by simp_all
  from own have "map_of (rev (kept_fields p (bfs p root ! j))) k = None"
    by (simp add: map_of_eq_None_iff)
  with normal_record_fields[OF r f, of k] doc show ?thesis by (simp add: record_field_doc)
qed

lemma normal_record_null_or_doc:
  "normal_record p i e = Inr r \<Longrightarrow> (r = BNull \<and> subdoc e = BNull) \<or> (\<exists>fs kvs. r = BDoc fs \<and> subdoc e = BDoc kvs)"
  by (cases "subdoc e") (auto simp: normal_record_cases)

lemma result_has_index:
  assumes ok: "reduce_value p root = Inr acc" and i: "i < length (bfs p root)" and lt: "int i < maxElements p"
  shows "i < length (result acc) \<and> normal_record p (int i) (bfs p root ! i) = Inr (result acc ! i)"
proof -
  from lt have m: "0 \<le> maxElements p" by simp
  from lt have "i < nat (maxElements p)" by linarith
  with result_length(1)[OF ok m] i have il: "i < length (result acc)" by simp
  from result_index[OF ok il] lt show ?thesis using il by simp
qed

lemma normal_record_of_doc:
  "subdoc e = BDoc kvs \<Longrightarrow> normal_record p i e = Inr r \<Longrightarrow> \<exists>fs. r = BDoc fs"
  using normal_record_null_or_doc[of p i e r] by auto

lemma record_idx:
  assumes ok: "reduce_value p root = Inr acc" and j: "j < length (result acc)"
    and own: "\<forall>e\<in>set (emitted_nodes p root). ''_idx'' \<notin> fst ` set (kept_fields p e)"
    and x: "record_field (result acc ! j) ''_idx'' = Some x"
  shows "x = BStr (n_idx (bfs p root ! j)) \<and> j < length (bfs p root) \<and> result acc ! j \<noteq> warning"
proof -
  have nw: "result acc ! j \<noteq> warning"
    using x record_field_warning_meta[of "''_idx''"] by auto
  note ni = normal_index[OF ok j nw]
  from x obtain fs where doc: "result acc ! j = BDoc fs"
    by (cases "result acc ! j") (simp_all add: record_field_def)
  from ni own have "''_idx'' \<notin> fst ` set (kept_fields p (bfs p root ! j))" by blast
  from record_metadata[OF ok j nw doc this] x have "x = BStr (n_idx (bfs p root ! j))"
    by (simp add: metadata_def)
  with ni nw show ?thesis by simp
qed

lemma marker_facts:
  assumes ok: "reduce_value p root = Inr acc" and m: "0 \<le> maxElements p"
  shows "(warning \<in> set (result acc) \<longleftrightarrow> maxElements p < int (length (bfs p root)))
       \<and> length (result acc) \<le> nat (maxElements p) + 1
       \<and> (\<forall>j<length (result acc). result acc ! j = warning \<longleftrightarrow> int j = maxElements p)
       \<and> (warning \<in> set (result acc) \<longrightarrow> last (result acc) = warning)
       \<and> (maxElements p = 0 \<longrightarrow> result acc = [warning])"
proof -
  let ?m = "nat (maxElements p)"
  let ?B = "length (bfs p root)"
  note len = result_length(1)[OF ok m]
  have idx: "\<And>j. j < length (result acc) \<Longrightarrow> result acc ! j = warning \<longleftrightarrow> int j = maxElements p"
    using result_marker_index[OF ok] by blast
  have le: "length (result acc) \<le> ?m + 1" using len by (simp split: if_splits)
  have iff: "warning \<in> set (result acc) \<longleftrightarrow> ?m < ?B"
  proof
    assume "warning \<in> set (result acc)"
    then obtain j where j: "j < length (result acc)" "result acc ! j = warning"
      by (auto simp: in_set_conv_nth)
    with idx[of j] have "j = ?m" using m by simp
    with j(1) len show "?m < ?B" by (simp split: if_splits)
  next
    assume lt: "?m < ?B"
    with len have "?m < length (result acc)" by simp
    moreover from this idx[of ?m] m have "result acc ! ?m = warning" by simp
    ultimately show "warning \<in> set (result acc)" by (auto simp: in_set_conv_nth)
  qed
  have lastw: "warning \<in> set (result acc) \<longrightarrow> last (result acc) = warning"
  proof
    assume w: "warning \<in> set (result acc)"
    with iff len have l: "length (result acc) = ?m + 1" by simp
    then have ne: "result acc \<noteq> []" by auto
    have "last (result acc) = result acc ! ?m" using last_conv_nth[OF ne] l by simp
    with idx[of ?m] l m show "last (result acc) = warning" by simp
  qed
  have zero: "maxElements p = 0 \<longrightarrow> result acc = [warning]"
  proof
    assume z: "maxElements p = 0"
    with len bfs_nonempty[of p root] have l: "length (result acc) = 1" by simp
    with idx[of 0] z have "result acc ! 0 = warning" by simp
    with l show "result acc = [warning]" by (cases "result acc") auto
  qed
  have "(warning \<in> set (result acc) \<longleftrightarrow> maxElements p < int ?B)" using iff m by linarith
  with le idx lastw zero show ?thesis by blast
qed

text \<open>Evaluation fails only on an emitted node that is neither a document nor \<open>null\<close>.\<close>

lemma records_total:
  "\<forall>e\<in>set es. is_document (subdoc e) \<or> subdoc e = BNull \<Longrightarrow> \<exists>rs. records p i es = Inr rs"
proof (induction es arbitrary: i)
  case Nil then show ?case by simp
next
  case (Cons e es)
  then obtain rs where rs: "records p (i + 1) es = Inr rs" by fastforce
  from Cons.prems have "is_document (subdoc e) \<or> subdoc e = BNull" by simp
  then obtain r where "normal_record p i e = Inr r"
    by (cases "subdoc e") (auto simp: normal_record_cases is_document_def)
  with rs show ?case by simp
qed

lemma reduce_value_total:
  assumes "\<forall>e\<in>set (emitted_nodes p root). is_document (subdoc e) \<or> subdoc e = BNull"
  shows "\<exists>val. reduce_value p root = Inr val"
proof (cases "maxElements p < 0")
  case True then show ?thesis by (simp add: reduce_value_negative)
next
  case False
  then have m: "0 \<le> maxElements p" by simp
  from records_total[OF assms, of p 0] obtain rs where "records p 0 (emitted_nodes p root) = Inr rs" ..
  with reduce_value_char[OF m, of root] show ?thesis by auto
qed

section \<open>Runs of the examples\<close>

lemma ex_full_run:
  "reduce_value (ex_params\<lparr>maxDepth := 2\<rparr>) ex_doc
     = Inr \<lparr>result = [BDoc [(''_ord'', BInt 0), (''_depth'', BInt 0), (''_idx'', BStr ''0''), (''name'', BStr ''r'')],
                      BDoc [(''_ord'', BInt 1), (''_depth'', BInt 1), (''_idx'', BStr ''0_0''), (''name'', BStr ''a'')],
                      BDoc [(''_ord'', BInt 2), (''_depth'', BInt 1), (''_idx'', BStr ''0_1''), (''name'', BStr ''b'')],
                      BDoc [(''_ord'', BInt 3), (''_depth'', BInt 2), (''_idx'', BStr ''0_1_0''), (''name'', BStr ''c'')]],
             subLevelsToInspect = []\<rparr>"
  by code_simp

lemma ex_full_emitted:
  "emitted_nodes (ex_params\<lparr>maxDepth := 2\<rparr>) ex_doc
     = [\<lparr>n_depth = 0, n_idx = ''0'', subdoc = BDoc ex_doc\<rparr>,
        \<lparr>n_depth = 1, n_idx = ''0_0'', subdoc = BDoc [(''name'', BStr ''a'')]\<rparr>,
        \<lparr>n_depth = 1, n_idx = ''0_1'',
          subdoc = BDoc [(''name'', BStr ''b''), (''children'', BArr [BDoc [(''name'', BStr ''c'')]])]\<rparr>,
        \<lparr>n_depth = 2, n_idx = ''0_1_0'', subdoc = BDoc [(''name'', BStr ''c'')]\<rparr>]"
  by code_simp

lemma ex_full_no_own_metadata:
  "\<forall>e\<in>set (emitted_nodes (ex_params\<lparr>maxDepth := 2\<rparr>) ex_doc).
      \<forall>k\<in>{''_ord'', ''_depth'', ''_idx'', ''schema''}.
        k \<notin> fst ` set (kept_fields (ex_params\<lparr>maxDepth := 2\<rparr>) e)"
  unfolding ex_full_emitted by code_simp

section \<open>Properties of the flattening\<close>

text \<open>
  C1. Whenever the expression built by \<open>graphDescend\<close> has a value on an
  input document, that value is not the array of records alone: it is the last accumulator
  of the bounded iteration, a document with the two fields \<open>result\<close>, the ordered list of
  records emitted over the iteration, and \<open>subLevelsToInspect\<close>, the worklist left by
  the last step. For a non-negative \<open>maxElements\<close> the leftover worklist is empty exactly
  when at most \<open>maxElements + 1\<close> nodes are reachable within the clamped depth; for a
  negative \<open>maxElements\<close> no step runs and it still holds the root. The expression has
  a value whenever each of the first \<open>maxElements\<close> reachable nodes is a document or
  \<open>null\<close>.
\<close>

theorem graphDescend_value:
  "((\<forall>e\<in>set (emitted_nodes p root). is_document (subdoc e) \<or> subdoc e = BNull) \<longrightarrow>
      (\<exists>out. graphDescend p root = Inr out))
   \<and> (\<forall>out. graphDescend p root = Inr out \<longrightarrow>
        (\<exists>val. reduce_value p root = Inr val
           \<and> out = BDoc [(''result'', BArr (result val)),
                         (''subLevelsToInspect'', BArr (map node_value (subLevelsToInspect val)))]
           \<and> (0 \<le> maxElements p \<longrightarrow>
                 (subLevelsToInspect val = [] \<longleftrightarrow> int (length (bfs p root)) \<le> maxElements p + 1))
           \<and> (maxElements p < 0 \<longrightarrow> result val = [] \<and> subLevelsToInspect val = [root_node root])))"
proof (intro conjI allI impI)
  assume "\<forall>e\<in>set (emitted_nodes p root). is_document (subdoc e) \<or> subdoc e = BNull"
  from reduce_value_total[OF this] obtain val where "reduce_value p root = Inr val" ..
  then show "\<exists>out. graphDescend p root = Inr out" by (simp add: graphDescend_def)
next
  fix out assume g: "graphDescend p root = Inr out"
  then obtain val where v: "reduce_value p root = Inr val" and o: "out = accum_value val"
    by (auto simp: graphDescend_def split: sum.splits)
  have a: "0 \<le> maxElements p \<longrightarrow>
             (subLevelsToInspect val = [] \<longleftrightarrow> int (length (bfs p root)) \<le> maxElements p + 1)"
  proof
    assume m: "0 \<le> maxElements p"
    from result_length(2)[OF v m] m show
      "subLevelsToInspect val = [] \<longleftrightarrow> int (length (bfs p root)) \<le> maxElements p + 1"
      by linarith
  qed
  have b: "maxElements p < 0 \<longrightarrow> result val = [] \<and> subLevelsToInspect val = [root_node root]"
    using v reduce_value_negative[of p root] by (auto simp: initialValue_def root_node_def)
  from v o a b show "\<exists>val. reduce_value p root = Inr val
           \<and> out = BDoc [(''result'', BArr (result val)),
                         (''subLevelsToInspect'', BArr (map node_value (subLevelsToInspect val)))]
           \<and> (0 \<le> maxElements p \<longrightarrow>
                 (subLevelsToInspect val = [] \<longleftrightarrow> int (length (bfs p root)) \<le> maxElements p + 1))
           \<and> (maxElements p < 0 \<longrightarrow> result val = [] \<and> subLevelsToInspect val = [root_node root])"
    by (simp add: accum_value_def)
qed

theorem graphDescend_value_witness:
  "\<exists>out val. graphDescend (ex_params\<lparr>maxDepth := 2\<rparr>) ex_doc = Inr out
      \<and> reduce_value (ex_params\<lparr>maxDepth := 2\<rparr>) ex_doc = Inr val
      \<and> out = BDoc [(''result'', BArr (result val)),
                    (''subLevelsToInspect'', BArr (map node_value (subLevelsToInspect val)))]"
proof -
  have h: "\<forall>e\<in>set (emitted_nodes (ex_params\<lparr>maxDepth := 2\<rparr>) ex_doc).
             is_document (subdoc e) \<or> subdoc e = BNull"
    unfolding ex_full_emitted by (simp add: is_document_def)
  note t = graphDescend_value[of "ex_params\<lparr>maxDepth := 2\<rparr>" ex_doc]
  from t[THEN conjunct1, THEN mp, OF h] obtain out
    where o: "graphDescend (ex_params\<lparr>maxDepth := 2\<rparr>) ex_doc = Inr out" ..
  from t[THEN conjunct2, rule_format, OF o] o show ?thesis by blast
qed

theorem graphDescend_value_is_not_the_array:
  "graphDescend (ex_params\<lparr>maxElements := 0\<rparr>) ex_doc =
     Inr (BDoc [(''result'', BArr [warning]),
                (''subLevelsToInspect'',
                 BArr [BDoc [(''_depth'', BInt 1), (''_idx'', BStr ''0_0''),
                             (''subdoc'', BDoc [(''name'', BStr ''a'')])],
                       BDoc [(''_depth'', BInt 1), (''_idx'', BStr ''0_1''),
                             (''subdoc'', BDoc [(''name'', BStr ''b''),
                                (''children'', BArr [BDoc [(''name'', BStr ''c'')]])])]])])
   \<and> graphDescend (ex_params\<lparr>maxElements := 0\<rparr>) ex_doc \<noteq> Inr (BArr [warning])"
  by code_simp

text \<open>
  C2. For the node at the head of the worklist, children are appended to the
  tail of the worklist if and only if the value of the branching field active at that step
  is an array, whatever its elements are, and the node's depth + 1 does not exceed the
  clamped \<open>maxDepth\<close>; there is then one child per element, in the array's order, with
  depth = parent depth + 1 and path = parent path, \<open>_\<close>, index. A branching field that
  is \<open>null\<close>, absent, a scalar or a single document yields no child. In each case a node
  whose sub-document is a document is emitted as a normal record, not as the marker,
  while the step index is below \<open>maxElements\<close>.
\<close>

theorem children_pushed_iff_array:
  assumes hd: "subLevelsToInspect val = e # t"
  shows "subLevelsToInspect_step p val this = t @
           (case mg_getField (currChildFieldName p this) (Some (subdoc e)) of
              Some (BArr cs) \<Rightarrow>
                (if n_depth e + 1 \<le> maxDepthVar p
                 then map (\<lambda>k. \<lparr>n_depth = n_depth e + 1,
                                 n_idx = n_idx e @ ''_'' @ mg_toString (int k),
                                 subdoc = cs ! k\<rparr>) [0..<length cs]
                 else [])
            | _ \<Rightarrow> [])
       \<and> (this < maxElements p \<longrightarrow> is_document (subdoc e) \<longrightarrow>
            (\<exists>r. result_step p val this = Inr (result val @ [r]) \<and> r \<noteq> warning))"
proof -
  have a: "subLevelsToInspect_step p val this = t @
           (case mg_getField (currChildFieldName p this) (Some (subdoc e)) of
              Some (BArr cs) \<Rightarrow>
                (if n_depth e + 1 \<le> maxDepthVar p
                 then map (\<lambda>k. \<lparr>n_depth = n_depth e + 1,
                                 n_idx = n_idx e @ ''_'' @ mg_toString (int k),
                                 subdoc = cs ! k\<rparr>) [0..<length cs]
                 else [])
            | _ \<Rightarrow> [])"
    using hd
    by (simp add: subLevelsToInspect_step_cases pushed_def child_nodes_map Let_def
          split: option.splits bson.splits)
  have b: "this < maxElements p \<longrightarrow> is_document (subdoc e) \<longrightarrow>
            (\<exists>r. result_step p val this = Inr (result val @ [r]) \<and> r \<noteq> warning)"
  proof (intro impI)
    assume lim: "this < maxElements p" and d: "is_document (subdoc e)"
    from d obtain kvs where sd: "subdoc e = BDoc kvs"
      by (cases "subdoc e") (simp_all add: is_document_def)
    from normal_record_lookup[OF sd, of p this] obtain r where r: "normal_record p this e = Inr r"
      by blast
    from result_step_normal[OF hd lim r] normal_record_not_warning[OF r]
    show "\<exists>r. result_step p val this = Inr (result val @ [r]) \<and> r \<noteq> warning" by blast
  qed
  from a b show ?thesis by blast
qed

theorem children_pushed_iff_array_witness:
  "subLevelsToInspect_step ex_params (initialValue [(''children'', BInt 5)]) 0 = []
   \<and> (\<exists>r. result_step ex_params (initialValue [(''children'', BInt 5)]) 0 = Inr [r] \<and> r \<noteq> warning)"
  using children_pushed_iff_array
          [of "initialValue [(''children'', BInt 5)]" "root_node [(''children'', BInt 5)]" "[]"
              ex_params 0]
  by (simp add: initialValue_def root_node_def ex_params_def currChildFieldName_def
        startWithField_def mg_getField_def is_document_def)

theorem array_of_scalars_is_pushed:
  "\<not> sequence_of_documents (mg_getField ''children'' (Some (BDoc [(''children'', BArr [BInt 5])])))
   \<and> subLevelsToInspect_step ex_params (initialValue [(''children'', BArr [BInt 5])]) 0
       = [\<lparr>n_depth = 1, n_idx = ''0_0'', subdoc = BInt 5\<rparr>]
   \<and> \<not> sequence_of_documents (mg_getField ''children'' (Some (BDoc [(''children'', BArr [BNull])])))
   \<and> graphDescend (ex_params\<lparr>maxElements := 1\<rparr>) [(''children'', BArr [BNull])]
       = Inr (BDoc [(''result'',
                     BArr [BDoc [(''_ord'', BInt 0), (''_depth'', BInt 0), (''_idx'', BStr ''0'')],
                           warning]),
                    (''subLevelsToInspect'', BArr [])])"
  by code_simp

text \<open>
  C3. For every document, the normal record at position \<open>j\<close> of the result is the
  record of node \<open>j\<close> of the level-order enumeration \<open>bfs\<close>, in which level 0 is the
  root and each next level lists the children of the nodes of the level before, parent
  after parent in the order of that level and, for one parent, one child per element of
  its array in the array's order; depths never decrease along it. When moreover no emitted
  sub-document has a field of its own named \<open>_ord\<close> or \<open>_depth\<close> that survives the
  filter (such a field replaces the metadata, see C10), the records themselves show the
  breadth-first order: of two records of which the first has the smaller \<open>_depth\<close>, the
  first has the smaller \<open>_ord\<close>.
\<close>

theorem breadth_first_order:
  assumes ok: "reduce_value p root = Inr acc"
  shows "((\<forall>e\<in>set (emitted_nodes p root).
             ''_ord'' \<notin> fst ` set (kept_fields p e) \<and> ''_depth'' \<notin> fst ` set (kept_fields p e)) \<longrightarrow>
          (\<forall>i j da db oa ob. i < length (result acc) \<and> j < length (result acc)
            \<and> record_field (result acc ! i) ''_depth'' = Some (BInt da)
            \<and> record_field (result acc ! j) ''_depth'' = Some (BInt db)
            \<and> record_field (result acc ! i) ''_ord'' = Some (BInt oa)
            \<and> record_field (result acc ! j) ''_ord'' = Some (BInt ob)
            \<and> da < db \<longrightarrow> oa < ob))
       \<and> (\<forall>j<length (result acc). result acc ! j \<noteq> warning \<longrightarrow>
            normal_record p (int j) (bfs p root ! j) = Inr (result acc ! j))
       \<and> (\<forall>i j. i \<le> j \<and> j < length (bfs p root) \<longrightarrow>
            n_depth (bfs p root ! i) \<le> n_depth (bfs p root ! j))
       \<and> bfs p root = concat (map (level p root) [0..<Suc (nat (maxDepthVar p))])
       \<and> level p root 0 = [\<lparr>n_depth = 0, n_idx = ''0'', subdoc = BDoc root\<rparr>]
       \<and> (\<forall>d. level p root (Suc d) = concat (map (children p) (level p root d)))
       \<and> (\<forall>e. children p e =
            (case mg_getField (active_field p e) (Some (subdoc e)) of
               Some (BArr cs) \<Rightarrow>
                 (if n_depth e + 1 \<le> maxDepthVar p
                  then map (\<lambda>k. \<lparr>n_depth = n_depth e + 1,
                                  n_idx = n_idx e @ ''_'' @ mg_toString (int k),
                                  subdoc = cs ! k\<rparr>) [0..<length cs]
                  else [])
             | _ \<Rightarrow> []))"
proof (intro conjI allI impI)
  fix i j da db oa ob
  assume own: "\<forall>e\<in>set (emitted_nodes p root).
             ''_ord'' \<notin> fst ` set (kept_fields p e) \<and> ''_depth'' \<notin> fst ` set (kept_fields p e)"
  assume a: "i < length (result acc) \<and> j < length (result acc)
            \<and> record_field (result acc ! i) ''_depth'' = Some (BInt da)
            \<and> record_field (result acc ! j) ''_depth'' = Some (BInt db)
            \<and> record_field (result acc ! i) ''_ord'' = Some (BInt oa)
            \<and> record_field (result acc ! j) ''_ord'' = Some (BInt ob)
            \<and> da < db"
  have meta: "oo = int n \<and> dd = n_depth (bfs p root ! n) \<and> n < length (bfs p root)"
    if n: "n < length (result acc)"
      and d: "record_field (result acc ! n) ''_depth'' = Some (BInt dd)"
      and ord: "record_field (result acc ! n) ''_ord'' = Some (BInt oo)" for n dd oo
  proof -
    have nw: "result acc ! n \<noteq> warning"
      using d record_field_warning_meta[of "''_depth''"] by auto
    from d obtain fs where doc: "result acc ! n = BDoc fs"
      by (cases "result acc ! n") (simp_all add: record_field_def)
    note ni = normal_index[OF ok n nw]
    with own have o1: "''_ord'' \<notin> fst ` set (kept_fields p (bfs p root ! n))"
      and o2: "''_depth'' \<notin> fst ` set (kept_fields p (bfs p root ! n))" by blast+
    from record_metadata[OF ok n nw doc o1] ord have "oo = int n" by (simp add: metadata_def)
    moreover from record_metadata[OF ok n nw doc o2] d have "dd = n_depth (bfs p root ! n)"
      by (simp add: metadata_def)
    ultimately show ?thesis using ni by simp
  qed
  from a meta[of i da oa] have mi: "oa = int i" "da = n_depth (bfs p root ! i)" "i < length (bfs p root)"
    by simp_all
  from a meta[of j db ob] have mj: "ob = int j" "db = n_depth (bfs p root ! j)" "j < length (bfs p root)"
    by simp_all
  have "i < j"
  proof (rule ccontr)
    assume "\<not> i < j"
    then have "j \<le> i" by simp
    from bfs_depth_mono[OF this mi(3)] a mi(2) mj(2) show False by simp
  qed
  with mi(1) mj(1) show "oa < ob" by simp
next
  fix j assume j: "j < length (result acc)" and nw: "result acc ! j \<noteq> warning"
  from normal_index[OF ok j nw]
  show "normal_record p (int j) (bfs p root ! j) = Inr (result acc ! j)" by simp
next
  fix i j assume "i \<le> j \<and> j < length (bfs p root)"
  then show "n_depth (bfs p root ! i) \<le> n_depth (bfs p root ! j)"
    using bfs_depth_mono[of i j p root] by simp
next
  show "bfs p root = concat (map (level p root) [0..<Suc (nat (maxDepthVar p))])"
    by (simp only: bfs_def levels_upto_def)
next
  show "level p root 0 = [\<lparr>n_depth = 0, n_idx = ''0'', subdoc = BDoc root\<rparr>]"
    by (simp add: root_node_def)
next
  fix d show "level p root (Suc d) = concat (map (children p) (level p root d))" by simp
next
  fix e show "children p e =
            (case mg_getField (active_field p e) (Some (subdoc e)) of
               Some (BArr cs) \<Rightarrow>
                 (if n_depth e + 1 \<le> maxDepthVar p
                  then map (\<lambda>k. \<lparr>n_depth = n_depth e + 1,
                                  n_idx = n_idx e @ ''_'' @ mg_toString (int k),
                                  subdoc = cs ! k\<rparr>) [0..<length cs]
                  else [])
             | _ \<Rightarrow> [])"
    by (rule children_eq)
qed

theorem breadth_first_order_witness:
  "(1::int) < 3
   \<and> normal_record (ex_params\<lparr>maxDepth := 2\<rparr>) (int 3) (bfs (ex_params\<lparr>maxDepth := 2\<rparr>) ex_doc ! 3)
     = Inr (BDoc [(''_ord'', BInt 3), (''_depth'', BInt 2), (''_idx'', BStr ''0_1_0''), (''name'', BStr ''c'')])"
proof -
  have own: "\<forall>e\<in>set (emitted_nodes (ex_params\<lparr>maxDepth := 2\<rparr>) ex_doc).
      ''_ord'' \<notin> fst ` set (kept_fields (ex_params\<lparr>maxDepth := 2\<rparr>) e)
      \<and> ''_depth'' \<notin> fst ` set (kept_fields (ex_params\<lparr>maxDepth := 2\<rparr>) e)"
    using ex_full_no_own_metadata by blast
  note t = breadth_first_order[OF ex_full_run]
  have ordered: "(1::int) < 3"
    using t[THEN conjunct1, THEN mp, OF own, rule_format, of 1 3 1 2 1 3]
    by (simp add: record_field_def)
  from t[THEN conjunct2, THEN conjunct1, rule_format, of 3] ordered
  show ?thesis by (simp add: warning_def)
qed

theorem own_depth_fields_break_order:
  "reduce_value ex_params [(''_depth'', BInt 5), (''children'', BArr [BDoc [(''_depth'', BInt 0)]])]
     = Inr \<lparr>result = [BDoc [(''_ord'', BInt 0), (''_depth'', BInt 5), (''_idx'', BStr ''0'')],
                      BDoc [(''_ord'', BInt 1), (''_depth'', BInt 0), (''_idx'', BStr ''0_0'')]],
             subLevelsToInspect = []\<rparr>
   \<and> record_field (BDoc [(''_ord'', BInt 1), (''_depth'', BInt 0), (''_idx'', BStr ''0_0'')]) ''_depth'' = Some (BInt 0)
   \<and> record_field (BDoc [(''_ord'', BInt 0), (''_depth'', BInt 5), (''_idx'', BStr ''0'')]) ''_depth'' = Some (BInt 5)
   \<and> (0::int) < 5
   \<and> record_field (BDoc [(''_ord'', BInt 1), (''_depth'', BInt 0), (''_idx'', BStr ''0_0'')]) ''_ord'' = Some (BInt 1)
   \<and> record_field (BDoc [(''_ord'', BInt 0), (''_depth'', BInt 5), (''_idx'', BStr ''0'')]) ''_ord'' = Some (BInt 0)
   \<and> \<not> (1::int) < 0"
  by code_simp

text \<open>
  C4. Whenever the evaluation yields a value and \<open>maxElements\<close> is not
  negative, the result contains the overrun marker if and only if the number of nodes
  reachable within the clamped \<open>maxDepth\<close> strictly exceeds \<open>maxElements\<close>. The
  result has at most \<open>maxElements + 1\<close> elements, its element at an index is the marker
  exactly when the index is \<open>maxElements\<close>, so that a marker is single, last, and no
  normal record stands at or after its index; \<open>maxElements = 0\<close> yields the marker
  alone. With a negative \<open>maxElements\<close> the iteration has no step and the result is
  empty, without a marker.
\<close>

theorem overrun_marker_iff:
  assumes ok: "reduce_value p root = Inr acc"
  shows "(0 \<le> maxElements p \<longrightarrow>
            (warning \<in> set (result acc) \<longleftrightarrow> maxElements p < int (length (bfs p root)))
          \<and> length (result acc) \<le> nat (maxElements p) + 1
          \<and> (\<forall>j<length (result acc). result acc ! j = warning \<longleftrightarrow> int j = maxElements p)
          \<and> (warning \<in> set (result acc) \<longrightarrow> last (result acc) = warning)
          \<and> (maxElements p = 0 \<longrightarrow> result acc = [warning]))
       \<and> (maxElements p < 0 \<longrightarrow> result acc = [])"
proof -
  have neg: "maxElements p < 0 \<longrightarrow> result acc = []"
    using ok reduce_value_negative[of p root] by (auto simp: initialValue_def)
  from marker_facts[OF ok] neg show ?thesis by blast
qed

lemma ex_overrun_at_zero:
  "reduce_value (ex_params\<lparr>maxElements := 0\<rparr>) [(''a'', BInt 1)]
     = Inr \<lparr>result = [warning], subLevelsToInspect = []\<rparr>"
  by code_simp

theorem overrun_marker_iff_witness:
  "maxElements (ex_params\<lparr>maxElements := 0\<rparr>)
     < int (length (bfs (ex_params\<lparr>maxElements := 0\<rparr>) [(''a'', BInt 1)]))"
  using overrun_marker_iff[OF ex_overrun_at_zero] by (simp add: ex_params_def)

theorem no_marker_for_negative_maxElements:
  "reduce_value (ex_params\<lparr>maxElements := - 1\<rparr>) [(''a'', BInt 1)]
     = Inr \<lparr>result = [],
             subLevelsToInspect = [\<lparr>n_depth = 0, n_idx = ''0'', subdoc = BDoc [(''a'', BInt 1)]\<rparr>]\<rparr>
   \<and> maxElements (ex_params\<lparr>maxElements := - 1\<rparr>)
         < int (length (bfs (ex_params\<lparr>maxElements := - 1\<rparr>) [(''a'', BInt 1)]))
   \<and> warning \<notin> set []"
  by (simp add: reduce_value_def mg_range_def initialValue_def ex_params_def)

text \<open>
  C5. In every emitted normal record, no field copied from the sub-document
  bears a name of the omission set or the name of the branching field active at the
  record's depth: a field of the record with such a name is one of the metadata fields
  \<open>_ord\<close>, \<open>_depth\<close>, \<open>_idx\<close> (or \<open>schema\<close> when \<open>showSchema\<close> is set), which the
  code adds whatever the omission set and the branching fields are. The branching field is
  chosen by the test \<open>index \<le> 0\<close>, which for every emitted record agrees with the test
  \<open>depth = 0\<close>: \<open>startWith\<close> is removed from the depth-0 record only and
  \<open>connectToField\<close> from every record at depth 1 or more.
\<close>

theorem omitted_fields_absent:
  assumes ok: "reduce_value p root = Inr acc"
    and j: "j < length (result acc)"
    and nw: "result acc ! j \<noteq> warning"
    and k: "record_field (result acc ! j) k = Some v"
    and om: "k \<in> set (omitFields p) \<or> k = active_field p (bfs p root ! j)"
  shows "(k \<in> {''_ord'', ''_depth'', ''_idx''} \<or> (showSchema p \<and> k = ''schema''))
       \<and> Some v = metadata p (int j) (bfs p root ! j) k
       \<and> normal_record p (int j) (bfs p root ! j) = Inr (result acc ! j)
       \<and> (int j \<le> 0 \<longleftrightarrow> n_depth (bfs p root ! j) = 0)
       \<and> active_field p (bfs p root ! j) = (if int j \<le> 0 then startWithField p else connectToField p)"
proof -
  let ?e = "bfs p root ! j"
  note ni = normal_index[OF ok j nw]
  from k obtain fs where doc: "result acc ! j = BDoc fs"
    by (cases "result acc ! j") (simp_all add: record_field_def)
  from ni have jb: "j < length (bfs p root)" by simp
  have "map_of (rev (kept_fields p ?e)) k = None"
  proof (cases "subdoc ?e")
    case (BDoc kvs)
    from om have "k = active_field p ?e \<or> k \<in> set (omitFields p)" by blast
    from map_of_rev_kept_none[OF this, of kvs] BDoc show ?thesis by (simp add: kept_fields_def)
  qed (simp_all add: kept_fields_def)
  then have "k \<notin> fst ` set (kept_fields p ?e)" by (simp add: map_of_eq_None_iff)
  from record_metadata[OF ok j nw doc this] k have md: "Some v = metadata p (int j) ?e k" by simp
  then have names: "k \<in> {''_ord'', ''_depth'', ''_idx''} \<or> (showSchema p \<and> k = ''schema'')"
    by (auto simp: metadata_def split: if_splits)
  from bfs_nth_depth0[OF jb] have dz: "int j \<le> 0 \<longleftrightarrow> n_depth ?e = 0" by auto
  from ni have "currChildFieldName p (int j) = active_field p ?e" by simp
  then have af: "active_field p ?e = (if int j \<le> 0 then startWithField p else connectToField p)"
    by (simp add: currChildFieldName_def)
  from names md ni dz af show ?thesis by blast
qed

lemma ex_omit_depth:
  "reduce_value (ex_params\<lparr>maxElements := 3, omitFields := [''_depth'', ''name'']\<rparr>) ex_doc
     = Inr \<lparr>result = [BDoc [(''_ord'', BInt 0), (''_depth'', BInt 0), (''_idx'', BStr ''0'')],
                      BDoc [(''_ord'', BInt 1), (''_depth'', BInt 1), (''_idx'', BStr ''0_0'')],
                      BDoc [(''_ord'', BInt 2), (''_depth'', BInt 1), (''_idx'', BStr ''0_1'')],
                      warning],
             subLevelsToInspect = []\<rparr>"
  by code_simp

theorem omitted_fields_absent_witness:
  "Some (BInt 1) = metadata (ex_params\<lparr>maxElements := 3, omitFields := [''_depth'', ''name'']\<rparr>) 1
      (bfs (ex_params\<lparr>maxElements := 3, omitFields := [''_depth'', ''name'']\<rparr>) ex_doc ! 1) ''_depth''"
  using omitted_fields_absent[OF ex_omit_depth, of 1 "''_depth''" "BInt 1"]
  by (simp add: record_field_def warning_def)

theorem omitted_metadata_name_still_present:
  "reduce_value (ex_params\<lparr>maxElements := 3, omitFields := [''_depth'', ''name'']\<rparr>) ex_doc
     = Inr \<lparr>result = [BDoc [(''_ord'', BInt 0), (''_depth'', BInt 0), (''_idx'', BStr ''0'')],
                      BDoc [(''_ord'', BInt 1), (''_depth'', BInt 1), (''_idx'', BStr ''0_0'')],
                      BDoc [(''_ord'', BInt 2), (''_depth'', BInt 1), (''_idx'', BStr ''0_1'')],
                      warning],
             subLevelsToInspect = []\<rparr>
   \<and> ''_depth'' \<in> set (omitFields (ex_params\<lparr>maxElements := 3, omitFields := [''_depth'', ''name'']\<rparr>))
   \<and> record_field (BDoc [(''_ord'', BInt 1), (''_depth'', BInt 1), (''_idx'', BStr ''0_0'')]) ''_depth''
       = Some (BInt 1)"
  by (simp add: ex_omit_depth record_field_def)

text \<open>
  C6. A \<open>maxDepth\<close> argument outside [0, 100], every negative value included, is
  replaced by 100 before the traversal, and a value inside is kept. After that, no node of
  the traversal has a depth above the clamped \<open>maxDepth\<close>, and every emitted normal
  record whose sub-document has no field of its own named \<open>_depth\<close> that survives the
  filter shows under \<open>_depth\<close> the depth of its node (a surviving field of that name
  replaces the metadata, see C10, and may hold any value). Every node of the level-order
  enumeration whose index is below \<open>maxElements\<close> has its record, so the nodes at
  exactly the clamped depth are emitted as well.
\<close>

theorem depth_clamped_and_bounded:
  assumes ok: "reduce_value p root = Inr acc"
  shows "maxDepthVar p = (if maxDepth p < 0 \<or> 100 < maxDepth p then 100 else maxDepth p)
       \<and> (\<forall>e\<in>set (bfs p root). 0 \<le> n_depth e \<and> n_depth e \<le> maxDepthVar p)
       \<and> (\<forall>j v. j < length (result acc) \<and> result acc ! j \<noteq> warning
             \<and> record_field (result acc ! j) ''_depth'' = Some v
             \<and> ''_depth'' \<notin> fst ` set (kept_fields p (bfs p root ! j)) \<longrightarrow>
               v = BInt (n_depth (bfs p root ! j)) \<and> n_depth (bfs p root ! j) \<le> maxDepthVar p
             \<and> normal_record p (int j) (bfs p root ! j) = Inr (result acc ! j))
       \<and> (\<forall>i<length (bfs p root). int i < maxElements p \<longrightarrow>
             i < length (result acc) \<and> normal_record p (int i) (bfs p root ! i) = Inr (result acc ! i))
       \<and> set (level p root (nat (maxDepthVar p))) \<subseteq> set (bfs p root)"
proof (intro conjI allI impI ballI)
  show "maxDepthVar p = (if maxDepth p < 0 \<or> 100 < maxDepth p then 100 else maxDepth p)"
    by (simp add: maxDepthVar_def)
next
  fix e assume "e \<in> set (bfs p root)"
  from bfs_depth_range[OF this] show "0 \<le> n_depth e" "n_depth e \<le> maxDepthVar p" by simp_all
next
  fix j v
  assume a: "j < length (result acc) \<and> result acc ! j \<noteq> warning
             \<and> record_field (result acc ! j) ''_depth'' = Some v
             \<and> ''_depth'' \<notin> fst ` set (kept_fields p (bfs p root ! j))"
  then have j: "j < length (result acc)" and nw: "result acc ! j \<noteq> warning"
    and d: "record_field (result acc ! j) ''_depth'' = Some v"
    and own: "''_depth'' \<notin> fst ` set (kept_fields p (bfs p root ! j))" by blast+
  let ?e = "bfs p root ! j"
  note ni = normal_index[OF ok j nw]
  from d obtain fs where doc: "result acc ! j = BDoc fs"
    by (cases "result acc ! j") (simp_all add: record_field_def)
  from record_metadata[OF ok j nw doc own] d show "v = BInt (n_depth ?e)"
    by (simp add: metadata_def)
  from ni have "?e \<in> set (bfs p root)" by simp
  from bfs_depth_range[OF this] show "n_depth ?e \<le> maxDepthVar p" by simp
  from ni show "normal_record p (int j) ?e = Inr (result acc ! j)" by simp
next
  fix i assume "i < length (bfs p root)" "int i < maxElements p"
  from result_has_index[OF ok this]
  show "i < length (result acc)" "normal_record p (int i) (bfs p root ! i) = Inr (result acc ! i)"
    by simp_all
next
  show "set (level p root (nat (maxDepthVar p))) \<subseteq> set (bfs p root)"
    by (auto simp: mem_bfs)
qed

lemma ex_depth_one:
  "reduce_value (ex_params\<lparr>maxDepth := 1\<rparr>) ex_doc
     = Inr \<lparr>result = [BDoc [(''_ord'', BInt 0), (''_depth'', BInt 0), (''_idx'', BStr ''0''), (''name'', BStr ''r'')],
                      BDoc [(''_ord'', BInt 1), (''_depth'', BInt 1), (''_idx'', BStr ''0_0''), (''name'', BStr ''a'')],
                      BDoc [(''_ord'', BInt 2), (''_depth'', BInt 1), (''_idx'', BStr ''0_1''), (''name'', BStr ''b'')]],
             subLevelsToInspect = []\<rparr>"
  by code_simp

lemma ex_depth_one_bfs:
  "bfs (ex_params\<lparr>maxDepth := 1\<rparr>) ex_doc
     = [\<lparr>n_depth = 0, n_idx = ''0'', subdoc = BDoc ex_doc\<rparr>,
        \<lparr>n_depth = 1, n_idx = ''0_0'', subdoc = BDoc [(''name'', BStr ''a'')]\<rparr>,
        \<lparr>n_depth = 1, n_idx = ''0_1'',
          subdoc = BDoc [(''name'', BStr ''b''), (''children'', BArr [BDoc [(''name'', BStr ''c'')]])]\<rparr>]"
  by code_simp

theorem depth_clamped_and_bounded_witness:
  "maxDepthVar (ex_params\<lparr>maxDepth := 1\<rparr>) = 1
   \<and> n_depth (bfs (ex_params\<lparr>maxDepth := 1\<rparr>) ex_doc ! 2) = 1
   \<and> normal_record (ex_params\<lparr>maxDepth := 1\<rparr>) 2 (bfs (ex_params\<lparr>maxDepth := 1\<rparr>) ex_doc ! 2)
       = Inr (BDoc [(''_ord'', BInt 2), (''_depth'', BInt 1), (''_idx'', BStr ''0_1''), (''name'', BStr ''b'')])"
proof -
  have own: "''_depth'' \<notin> fst ` set (kept_fields (ex_params\<lparr>maxDepth := 1\<rparr>)
               (bfs (ex_params\<lparr>maxDepth := 1\<rparr>) ex_doc ! 2))"
    unfolding ex_depth_one_bfs by code_simp
  note t = depth_clamped_and_bounded[OF ex_depth_one]
  from t[THEN conjunct1] t[THEN conjunct2, THEN conjunct2, THEN conjunct1, rule_format, of 2 "BInt 1"] own
  show ?thesis
    by (simp add: record_field_def warning_def ex_params_def)
qed

theorem own_depth_field_exceeds_maxDepth:
  "reduce_value ex_params [(''_depth'', BInt 1000)]
     = Inr \<lparr>result = [BDoc [(''_ord'', BInt 0), (''_depth'', BInt 1000), (''_idx'', BStr ''0'')]],
             subLevelsToInspect = []\<rparr>
   \<and> record_field (BDoc [(''_ord'', BInt 0), (''_depth'', BInt 1000), (''_idx'', BStr ''0'')]) ''_depth''
       = Some (BInt 1000)
   \<and> maxDepthVar ex_params < 1000"
  by code_simp

text \<open>
  C7. The paths that the traversal gives to the reachable nodes are pairwise distinct.
  When no emitted sub-document has a field of its own named \<open>_idx\<close> that survives the
  filter (such a field replaces the metadata, see C10), the \<open>_idx\<close> values of the
  emitted records are these paths and so pairwise distinct; the first record's \<open>_idx\<close> is
  \<open>0\<close>, and the \<open>_idx\<close> of every later record is the \<open>_idx\<close> of an earlier record,
  its parent, followed by \<open>_\<close> and the decimal 0-based index of the record's
  sub-document in the array held by the parent's active branching field.
\<close>

theorem paths_distinct:
  assumes ok: "reduce_value p root = Inr acc"
    and own: "\<forall>e\<in>set (emitted_nodes p root). ''_idx'' \<notin> fst ` set (kept_fields p e)"
  shows "distinct (map n_idx (bfs p root))
       \<and> (\<forall>i j x y. i < j \<and> j < length (result acc)
             \<and> record_field (result acc ! i) ''_idx'' = Some x
             \<and> record_field (result acc ! j) ''_idx'' = Some y \<longrightarrow> x \<noteq> y)
       \<and> (0 < length (result acc) \<and> result acc ! 0 \<noteq> warning \<longrightarrow>
            record_field (result acc ! 0) ''_idx'' = Some (BStr ''0''))
       \<and> (\<forall>j x. 0 < j \<and> j < length (result acc)
             \<and> record_field (result acc ! j) ''_idx'' = Some x \<longrightarrow>
            (\<exists>q<j. \<exists>cs k.
                mg_getField (active_field p (bfs p root ! q)) (Some (subdoc (bfs p root ! q))) = Some (BArr cs)
              \<and> k < length cs \<and> subdoc (bfs p root ! j) = cs ! k
              \<and> record_field (result acc ! q) ''_idx'' = Some (BStr (n_idx (bfs p root ! q)))
              \<and> x = BStr (n_idx (bfs p root ! q) @ ''_'' @ mg_toString (int k))))"
proof (intro conjI allI impI)
  show "distinct (map n_idx (bfs p root))" by (rule bfs_idx_distinct)
next
  fix i j x y
  assume a: "i < j \<and> j < length (result acc)
             \<and> record_field (result acc ! i) ''_idx'' = Some x
             \<and> record_field (result acc ! j) ''_idx'' = Some y"
  then have i: "i < length (result acc)" and j: "j < length (result acc)" by simp_all
  from record_idx[OF ok i own] a have xi: "x = BStr (n_idx (bfs p root ! i))" by simp
  from record_idx[OF ok j own] a have yj: "y = BStr (n_idx (bfs p root ! j))"
    and jb: "j < length (bfs p root)" by simp_all
  from a jb have ib: "i < length (bfs p root)" and ne: "i \<noteq> j" by simp_all
  have il: "i < length (map n_idx (bfs p root))" and jl: "j < length (map n_idx (bfs p root))"
    using ib jb by simp_all
  from nth_eq_iff_index_eq[OF bfs_idx_distinct il jl] ne
  have "map n_idx (bfs p root) ! i \<noteq> map n_idx (bfs p root) ! j" by simp
  then have "n_idx (bfs p root ! i) \<noteq> n_idx (bfs p root ! j)"
    unfolding nth_map[OF ib] nth_map[OF jb] .
  with a jb xi yj show "x \<noteq> y" by simp
next
  assume a: "0 < length (result acc) \<and> result acc ! 0 \<noteq> warning"
  then have z: "0 < length (result acc)" and nw: "result acc ! 0 \<noteq> warning" by simp_all
  note ni = normal_index[OF ok z nw]
  then have zb: "0 < length (bfs p root)" by simp
  from bfs_nth_depth0[OF zb] have e0: "bfs p root ! 0 = root_node root" by simp
  from ni e0 have "normal_record p 0 (root_node root) = Inr (result acc ! 0)" by simp
  from normal_record_of_doc[OF _ this, of root] obtain fs where doc: "result acc ! 0 = BDoc fs"
    by (auto simp: root_node_def)
  from ni own have "''_idx'' \<notin> fst ` set (kept_fields p (bfs p root ! 0))" by blast
  from record_metadata[OF ok z nw doc this] e0
  show "record_field (result acc ! 0) ''_idx'' = Some (BStr ''0'')"
    by (simp add: metadata_def root_node_def)
next
  fix j x
  assume a: "0 < j \<and> j < length (result acc) \<and> record_field (result acc ! j) ''_idx'' = Some x"
  then have pos: "0 < j" and j: "j < length (result acc)" by simp_all
  from record_idx[OF ok j own] a have xj: "x = BStr (n_idx (bfs p root ! j))"
    and jb: "j < length (bfs p root)" and nwj: "result acc ! j \<noteq> warning" by simp_all
  from bfs_parent[OF jb pos] obtain q where q: "q < j"
    and ch: "bfs p root ! j \<in> set (children p (bfs p root ! q))" by blast
  from child_shape[OF ch] obtain cs k where
    g: "mg_getField (active_field p (bfs p root ! q)) (Some (subdoc (bfs p root ! q))) = Some (BArr cs)"
    and k: "k < length cs"
    and c: "bfs p root ! j = \<lparr>n_depth = n_depth (bfs p root ! q) + 1,
              n_idx = n_idx (bfs p root ! q) @ ''_'' @ mg_toString (int k), subdoc = cs ! k\<rparr>"
    by blast
  from q j have ql: "q < length (result acc)" by simp
  from normal_index[OF ok j nwj] q have "int q < maxElements p" by simp
  with result_marker_index[OF ok ql] have nwq: "result acc ! q \<noteq> warning" by simp
  note nq = normal_index[OF ok ql nwq]
  from g obtain kvs where sdq: "subdoc (bfs p root ! q) = BDoc kvs"
    by (cases "subdoc (bfs p root ! q)") (simp_all add: mg_getField_def)
  from nq have "normal_record p (int q) (bfs p root ! q) = Inr (result acc ! q)" by simp
  from normal_record_of_doc[OF sdq this] obtain fs where docq: "result acc ! q = BDoc fs" by blast
  from nq own have "''_idx'' \<notin> fst ` set (kept_fields p (bfs p root ! q))" by blast
  from record_metadata[OF ok ql nwq docq this]
  have pq: "record_field (result acc ! q) ''_idx'' = Some (BStr (n_idx (bfs p root ! q)))"
    by (simp add: metadata_def)
  have sj: "subdoc (bfs p root ! j) = cs ! k" and ij: "n_idx (bfs p root ! j) = n_idx (bfs p root ! q) @ ''_'' @ mg_toString (int k)"
    by (simp_all add: c)
  from q g k sj pq xj ij
  show "\<exists>q<j. \<exists>cs k.
                mg_getField (active_field p (bfs p root ! q)) (Some (subdoc (bfs p root ! q))) = Some (BArr cs)
              \<and> k < length cs \<and> subdoc (bfs p root ! j) = cs ! k
              \<and> record_field (result acc ! q) ''_idx'' = Some (BStr (n_idx (bfs p root ! q)))
              \<and> x = BStr (n_idx (bfs p root ! q) @ ''_'' @ mg_toString (int k))"
    by blast
qed

theorem paths_distinct_witness:
  "\<exists>q<3. \<exists>cs k.
      mg_getField (active_field (ex_params\<lparr>maxDepth := 2\<rparr>) (bfs (ex_params\<lparr>maxDepth := 2\<rparr>) ex_doc ! q))
        (Some (subdoc (bfs (ex_params\<lparr>maxDepth := 2\<rparr>) ex_doc ! q))) = Some (BArr cs)
    \<and> k < length cs
    \<and> ''0_1_0'' = n_idx (bfs (ex_params\<lparr>maxDepth := 2\<rparr>) ex_doc ! q) @ ''_'' @ mg_toString (int k)"
proof -
  have own: "\<forall>e\<in>set (emitted_nodes (ex_params\<lparr>maxDepth := 2\<rparr>) ex_doc).
      ''_idx'' \<notin> fst ` set (kept_fields (ex_params\<lparr>maxDepth := 2\<rparr>) e)"
    using ex_full_no_own_metadata by blast
  show ?thesis
    using paths_distinct[OF ex_full_run own, THEN conjunct2, THEN conjunct2, THEN conjunct2, rule_format,
            of 3 "BStr ''0_1_0''"]
    by (simp add: record_field_def) blast
qed

theorem own_idx_field_repeats_a_path:
  "reduce_value ex_params [(''children'', BArr [BDoc [(''_idx'', BStr ''0'')]])]
     = Inr \<lparr>result = [BDoc [(''_ord'', BInt 0), (''_depth'', BInt 0), (''_idx'', BStr ''0'')],
                      BDoc [(''_ord'', BInt 1), (''_depth'', BInt 1), (''_idx'', BStr ''0'')]],
             subLevelsToInspect = []\<rparr>
   \<and> record_field (BDoc [(''_ord'', BInt 0), (''_depth'', BInt 0), (''_idx'', BStr ''0'')]) ''_idx''
       = record_field (BDoc [(''_ord'', BInt 1), (''_depth'', BInt 1), (''_idx'', BStr ''0'')]) ''_idx''"
  by code_simp

text \<open>
  C8. When no emitted sub-document has a field of its own named \<open>_ord\<close>
  that survives the filter (such a field replaces the metadata, see C10), every emitted
  record that is a document other than the marker has, under \<open>_ord\<close>, its own position in
  the result: the values run 0, 1, 2, ... without a gap. The record at a position was built
  at the iteration index of that position, the marker, if present, is the last element and
  stands at position \<open>maxElements\<close>, and a step that finds the worklist empty leaves the
  accumulator as it is, so that from then on nothing is emitted.
\<close>

theorem order_contiguous:
  assumes ok: "reduce_value p root = Inr acc"
    and own: "\<forall>e\<in>set (emitted_nodes p root). ''_ord'' \<notin> fst ` set (kept_fields p e)"
  shows "(\<forall>j<length (result acc). \<forall>fs. result acc ! j = BDoc fs \<and> result acc ! j \<noteq> warning \<longrightarrow>
            record_field (result acc ! j) ''_ord'' = Some (BInt (int j)))
       \<and> (\<forall>j<length (result acc). result acc ! j \<noteq> warning \<longrightarrow>
            normal_record p (int j) (bfs p root ! j) = Inr (result acc ! j))
       \<and> (\<forall>j<length (result acc). result acc ! j = warning \<longrightarrow>
            Suc j = length (result acc) \<and> int j = maxElements p)
       \<and> length (result acc) \<le> length (bfs p root)
       \<and> (\<forall>val this. subLevelsToInspect val = [] \<longrightarrow> reduce_in p val this = Inr val)"
proof (intro conjI allI impI)
  fix j fs
  assume j: "j < length (result acc)" and a: "result acc ! j = BDoc fs \<and> result acc ! j \<noteq> warning"
  then have doc: "result acc ! j = BDoc fs" and nw: "result acc ! j \<noteq> warning" by blast+
  from normal_index[OF ok j nw] own have "''_ord'' \<notin> fst ` set (kept_fields p (bfs p root ! j))"
    by blast
  from record_metadata[OF ok j nw doc this]
  show "record_field (result acc ! j) ''_ord'' = Some (BInt (int j))" by (simp add: metadata_def)
next
  fix j assume j: "j < length (result acc)" and nw: "result acc ! j \<noteq> warning"
  from normal_index[OF ok j nw]
  show "normal_record p (int j) (bfs p root ! j) = Inr (result acc ! j)" by simp
next
  fix j assume j: "j < length (result acc)" and w: "result acc ! j = warning"
  from result_marker_index[OF ok j] w have m: "int j = maxElements p" by simp
  with result_index[OF ok j] show "Suc j = length (result acc)" by simp
  from m show "int j = maxElements p" .
next
  show "length (result acc) \<le> length (bfs p root)"
  proof (cases "result acc")
    case Nil then show ?thesis by simp
  next
    case (Cons r rs)
    then have "length (result acc) - 1 < length (result acc)" by simp
    from result_index[OF ok this] show ?thesis by linarith
  qed
next
  fix val :: accum and this :: int
  assume "subLevelsToInspect val = []"
  then show "reduce_in p val this = Inr val" by (rule reduce_in_empty)
qed

theorem order_contiguous_witness:
  "record_field (BDoc [(''_ord'', BInt 3), (''_depth'', BInt 2), (''_idx'', BStr ''0_1_0''), (''name'', BStr ''c'')])
     ''_ord'' = Some (BInt (int 3))
   \<and> (4::nat) \<le> length (bfs (ex_params\<lparr>maxDepth := 2\<rparr>) ex_doc)"
proof -
  have own: "\<forall>e\<in>set (emitted_nodes (ex_params\<lparr>maxDepth := 2\<rparr>) ex_doc).
      ''_ord'' \<notin> fst ` set (kept_fields (ex_params\<lparr>maxDepth := 2\<rparr>) e)"
    using ex_full_no_own_metadata by blast
  note t = order_contiguous[OF ex_full_run own]
  from t[THEN conjunct1, rule_format, of 3] t[THEN conjunct2, THEN conjunct2, THEN conjunct2, THEN conjunct1]
  show ?thesis by (simp add: warning_def)
qed

theorem own_ord_field_breaks_sequence:
  "reduce_value ex_params [(''_ord'', BInt 7), (''children'', BArr [BDoc []])]
     = Inr \<lparr>result = [BDoc [(''_ord'', BInt 7), (''_depth'', BInt 0), (''_idx'', BStr ''0'')],
                      BDoc [(''_ord'', BInt 1), (''_depth'', BInt 1), (''_idx'', BStr ''0_0'')]],
             subLevelsToInspect = []\<rparr>
   \<and> record_field (BDoc [(''_ord'', BInt 7), (''_depth'', BInt 0), (''_idx'', BStr ''0'')]) ''_ord''
       = Some (BInt 7)
   \<and> (7::int) \<noteq> 0"
  by code_simp

text \<open>
  C9. With \<open>showSchema\<close> set, every normal record emitted for a sub-document
  that has no field of its own named \<open>schema\<close> surviving the filter carries a \<open>schema\<close>
  field holding one \<open>{fieldname, type}\<close> pair for each field of the sub-document, in
  field order, computed on the unfiltered sub-document: the fields of the omission set and
  the active branching field are listed too. (A surviving field of the sub-document named
  \<open>schema\<close> takes the place of the summary, as in C10.)
\<close>

theorem schema_lists_all_fields:
  assumes ok: "reduce_value p root = Inr acc"
    and sch: "showSchema p"
    and j: "j < length (result acc)"
    and nw: "result acc ! j \<noteq> warning"
    and sd: "subdoc (bfs p root ! j) = BDoc kvs"
    and own: "''schema'' \<notin> fst ` set (kept_fields p (bfs p root ! j))"
  shows "record_field (result acc ! j) ''schema''
           = Some (BArr (map (\<lambda>kv. BDoc [(''fieldname'', BStr (fst kv)),
                                             (''type'', BStr (mg_type (snd kv)))]) kvs))
       \<and> normal_record p (int j) (bfs p root ! j) = Inr (result acc ! j)"
proof -
  note ni = normal_index[OF ok j nw]
  then have r: "normal_record p (int j) (bfs p root ! j) = Inr (result acc ! j)" by simp
  from normal_record_of_doc[OF sd r] obtain fs where doc: "result acc ! j = BDoc fs" by blast
  from record_metadata[OF ok j nw doc own] sch sd
  have "record_field (result acc ! j) ''schema'' = Some (schema_value (Some kvs))"
    by (simp add: metadata_def)
  then show ?thesis using r by (simp add: schema_value_def mg_map_def)
qed

lemma ex_schema_run:
  "reduce_value (ex_params\<lparr>maxDepth := 0, omitFields := [''name''], showSchema := True\<rparr>) ex_doc
     = Inr \<lparr>result = [BDoc [(''_ord'', BInt 0), (''_depth'', BInt 0), (''_idx'', BStr ''0''),
                             (''schema'', BArr [BDoc [(''fieldname'', BStr ''name''), (''type'', BStr ''string'')],
                                               BDoc [(''fieldname'', BStr ''children''), (''type'', BStr ''array'')]])]],
             subLevelsToInspect = []\<rparr>"
  by code_simp

lemma ex_schema_bfs:
  "bfs (ex_params\<lparr>maxDepth := 0, omitFields := [''name''], showSchema := True\<rparr>) ex_doc
     = [\<lparr>n_depth = 0, n_idx = ''0'', subdoc = BDoc ex_doc\<rparr>]"
  by code_simp

theorem schema_lists_all_fields_witness:
  "normal_record (ex_params\<lparr>maxDepth := 0, omitFields := [''name''], showSchema := True\<rparr>) (int 0)
     (bfs (ex_params\<lparr>maxDepth := 0, omitFields := [''name''], showSchema := True\<rparr>) ex_doc ! 0)
   = Inr (BDoc [(''_ord'', BInt 0), (''_depth'', BInt 0), (''_idx'', BStr ''0''),
                (''schema'', BArr [BDoc [(''fieldname'', BStr ''name''), (''type'', BStr ''string'')],
                                  BDoc [(''fieldname'', BStr ''children''), (''type'', BStr ''array'')]])])"
proof -
  have own: "''schema'' \<notin> fst ` set (kept_fields (ex_params\<lparr>maxDepth := 0, omitFields := [''name''], showSchema := True\<rparr>)
               (bfs (ex_params\<lparr>maxDepth := 0, omitFields := [''name''], showSchema := True\<rparr>) ex_doc ! 0))"
    unfolding ex_schema_bfs by code_simp
  have sd: "subdoc (bfs (ex_params\<lparr>maxDepth := 0, omitFields := [''name''], showSchema := True\<rparr>) ex_doc ! 0) = BDoc ex_doc"
    unfolding ex_schema_bfs by simp
  show ?thesis
    using schema_lists_all_fields[OF ex_schema_run _ _ _ sd own]
    by (simp add: warning_def)
qed

theorem own_schema_field_replaces_summary:
  "reduce_value (ex_params\<lparr>showSchema := True\<rparr>) [(''schema'', BInt 5)]
     = Inr \<lparr>result = [BDoc [(''_ord'', BInt 0), (''_depth'', BInt 0), (''_idx'', BStr ''0''),
                             (''schema'', BInt 5)]],
             subLevelsToInspect = []\<rparr>
   \<and> record_field (BDoc [(''_ord'', BInt 0), (''_depth'', BInt 0), (''_idx'', BStr ''0''),
                           (''schema'', BInt 5)]) ''schema''
       \<noteq> Some (BArr [BDoc [(''fieldname'', BStr ''schema''), (''type'', BStr ''int'')]])"
  by code_simp

text \<open>
  C10. When the visited sub-document has a field of its own named \<open>_ord\<close>,
  \<open>_depth\<close> or \<open>_idx\<close> that is neither the active branching field nor in the
  omission set, the record emitted for it carries, under that name, the sub-document's
  value and not the traversal metadata: the sub-document's pairs come after the metadata
  pairs and \<open>$arrayToObject\<close> keeps the last occurrence of a key. (For a sub-document
  that repeats the name, the last of its values is the one kept.)
\<close>

theorem own_field_replaces_metadata:
  assumes hd: "subLevelsToInspect val = e # t"
    and lim: "this < maxElements p"
    and sd: "subdoc e = BDoc kvs"
    and k: "k \<in> {''_ord'', ''_depth'', ''_idx''}"
    and own: "k \<in> fst ` set kvs"
    and nb: "k \<noteq> currChildFieldName p this"
    and no: "k \<notin> set (omitFields p)"
  shows "\<exists>r. result_step p val this = Inr (result val @ [r])
           \<and> mg_getField k (Some r) = map_of (rev kvs) k
           \<and> map_of (rev kvs) k \<noteq> None
           \<and> (distinct (map fst kvs) \<longrightarrow> mg_getField k (Some r) = mg_getField k (Some (subdoc e)))"
proof -
  from normal_record_lookup[OF sd, of p this] obtain r where
    r: "normal_record p this e = Inr r" and
    look: "\<And>k. mg_getField k (Some r) =
        (case map_of (rev (kept p (currChildFieldName p this) kvs)) k of
           Some v \<Rightarrow> Some v | None \<Rightarrow> metadata p this e k)" by blast
  have keep: "map_of (rev (kept p (currChildFieldName p this) kvs)) k = map_of (rev kvs) k"
    using nb no by (rule map_of_rev_kept)
  have "k \<in> fst ` set (rev kvs)" using own by simp
  then have some: "map_of (rev kvs) k \<noteq> None" by (simp add: map_of_eq_None_iff)
  then have g: "mg_getField k (Some r) = map_of (rev kvs) k" using look[of k] keep by auto
  have "distinct (map fst kvs) \<longrightarrow> map_of (rev kvs) k = map_of kvs k"
    by (simp add: map_of_rev_distinct)
  with g some result_step_normal[OF hd lim r] sd show ?thesis by (auto simp: mg_getField_doc)
qed

theorem own_field_replaces_metadata_witness:
  "\<exists>r. result_step ex_params (initialValue [(''_ord'', BInt 7), (''x'', BInt 1)]) 0 = Inr [r]
        \<and> mg_getField ''_ord'' (Some r) = Some (BInt 7)"
  using own_field_replaces_metadata
          [of "initialValue [(''_ord'', BInt 7), (''x'', BInt 1)]"
              "root_node [(''_ord'', BInt 7), (''x'', BInt 1)]" "[]" 0 ex_params
              "[(''_ord'', BInt 7), (''x'', BInt 1)]" "''_ord''"]
  by (simp add: initialValue_def root_node_def ex_params_def currChildFieldName_def
        startWithField_def mg_getField_def)

end
